theory Spec2Isabelle
  imports Main "HOL-Library.Sublist" "HOL-Library.Multiset"
begin

section \<open>Go strings: bytes and UTF-8 runes\<close>

text \<open>
  A Go \<open>string\<close> is a sequence of bytes; \<open>len\<close> and slicing count bytes. It is modelled
  as a \<open>char list\<close> (an Isabelle \<open>char\<close> is one byte); a rune (Go's \<open>int32\<close>) is an
  \<open>int\<close>. The library functions that
  the analysed file calls walk a string rune by rune with \<open>utf8.DecodeRuneInString\<close>,
  which is modelled first: it returns the code point and the number of bytes it took, and
  an ill-formed byte is the rune U+FFFD of width one. (Go compares the length of the
  string with the size the first byte announces before it reads the other bytes; a
  string that is too short is ill-formed like one with a wrong byte.)
\<close>

definition RuneError :: int where
  "RuneError = 0xFFFD"

fun DecodeRuneInString :: "string \<Rightarrow> int \<times> nat" where
  "DecodeRuneInString [] = (RuneError, 0)"
| "DecodeRuneInString (c0 # cs) =
     (let b0 = (of_char c0 :: int) in
      if b0 < 0x80 then (b0, 1)
      else if b0 < 0xC2 \<or> 0xF4 < b0 then (RuneError, 1)
      else
        let sz = (if b0 < 0xE0 then 2 else if b0 < 0xF0 then 3 else (4::nat));
            lo = (if b0 = 0xE0 then 0xA0 else if b0 = 0xF0 then 0x90 else (0x80::int));
            hi = (if b0 = 0xED then 0x9F else if b0 = 0xF4 then 0x8F else (0xBF::int))
        in
        (case cs of
           [] \<Rightarrow> (RuneError, 1)
         | c1 # cs1 \<Rightarrow>
            (let b1 = (of_char c1 :: int) in
             if b1 < lo \<or> hi < b1 then (RuneError, 1)
             else if sz \<le> 2 then ((b0 mod 0x20) * 0x40 + b1 mod 0x40, 2)
             else
               (case cs1 of
                  [] \<Rightarrow> (RuneError, 1)
                | c2 # cs2 \<Rightarrow>
                   (let b2 = (of_char c2 :: int) in
                    if b2 < 0x80 \<or> 0xBF < b2 then (RuneError, 1)
                    else if sz \<le> 3
                    then ((b0 mod 0x10) * 0x1000 + (b1 mod 0x40) * 0x40 + b2 mod 0x40, 3)
                    else
                      (case cs2 of
                         [] \<Rightarrow> (RuneError, 1)
                       | c3 # cs3 \<Rightarrow>
                          (let b3 = (of_char c3 :: int) in
                           if b3 < 0x80 \<or> 0xBF < b3 then (RuneError, 1)
                           else ((b0 mod 0x08) * 0x40000 + (b1 mod 0x40) * 0x1000
                                   + (b2 mod 0x40) * 0x40 + b3 mod 0x40, 4))))))))"

definition rune_len :: "string \<Rightarrow> nat" where
  "rune_len s = snd (DecodeRuneInString s)"

lemma rune_len_Nil [simp]: "rune_len [] = 0"
  by (simp add: rune_len_def)

lemma snd_if: "snd (if b then x else y) = (if b then snd x else snd y)"
  by simp

lemma rune_len_pos: "s \<noteq> [] \<Longrightarrow> 0 < rune_len s"
  by (cases s) (simp_all add: rune_len_def Let_def snd_if split: list.split)

lemma rune_len_le: "rune_len s \<le> length s"
  by (cases s) (simp_all add: rune_len_def Let_def snd_if split: list.split)

lemma rune_len_ascii: "(of_char c :: int) < 0x80 \<Longrightarrow> rune_len (c # cs) = 1"
  by (simp add: rune_len_def)

text \<open>
  What \<open>for i, r := range s\<close> walks: every rune of the string with the bytes it was
  decoded from.
\<close>

function range_string :: "string \<Rightarrow> (int \<times> string) list" where
  "range_string s =
     (if s = [] then []
      else (fst (DecodeRuneInString s), take (rune_len s) s) # range_string (drop (rune_len s) s))"
  by pat_completeness auto
termination
  by (relation "measure length") (auto simp: rune_len_pos)

declare range_string.simps [simp del]

section \<open>The functions of package strings\<close>

subsection \<open>strings.ReplaceAll and strings.Contains\<close>

text \<open>
  \<open>strings.ReplaceAll(s, old, new)\<close> replaces the non-overlapping occurrences of \<open>old\<close>
  from left to right. With an empty \<open>old\<close> Go inserts \<open>new\<close> before the first rune and
  after every rune; the analysed file only passes non-empty literals.
\<close>

function replace_scan :: "string \<Rightarrow> string \<Rightarrow> string \<Rightarrow> string" where
  "replace_scan old new s =
     (if s = [] then []
      else if old \<noteq> [] \<and> prefix old s then new @ replace_scan old new (drop (length old) s)
      else hd s # replace_scan old new (tl s))"
  by pat_completeness auto
termination
  by (relation "measure (\<lambda>(old, new, s). length s)") (auto simp: neq_Nil_conv)

declare replace_scan.simps [simp del]

definition ReplaceAll :: "string \<Rightarrow> string \<Rightarrow> string \<Rightarrow> string" where
  "ReplaceAll s old new =
     (if old = [] then new @ concat (map (\<lambda>(r, bytes). bytes @ new) (range_string s))
      else replace_scan old new s)"

text \<open>\<open>strings.Contains\<close>: \<open>substr\<close> occurs in \<open>s\<close> as a contiguous piece.\<close>

definition Contains :: "string \<Rightarrow> string \<Rightarrow> bool" where
  "Contains s substr = sublist substr s"

subsection \<open>strings.TrimSpace\<close>

text \<open>\<open>unicode.IsSpace\<close>: the Latin-1 spaces and the White_Space property beyond.\<close>

definition IsSpace :: "int \<Rightarrow> bool" where
  "IsSpace r \<longleftrightarrow>
     r \<in> {0x09, 0x0A, 0x0B, 0x0C, 0x0D, 0x20, 0x85, 0xA0, 0x1680}
     \<or> (0x2000 \<le> r \<and> r \<le> 0x200A)
     \<or> r \<in> {0x2028, 0x2029, 0x202F, 0x205F, 0x3000}"

text \<open>
  \<open>utf8.DecodeLastRuneInString\<close>: steps back from the last byte, over at most three
  more bytes, to a byte that can start a rune, and decodes forwards from there; the rune
  counts only if it ends exactly at the end of the string.
\<close>

definition RuneStart :: "char \<Rightarrow> bool" where
  "RuneStart c \<longleftrightarrow> \<not> (0x80 \<le> (of_char c :: int) \<and> (of_char c :: int) < 0xC0)"

function back_to_start :: "string \<Rightarrow> int \<Rightarrow> int \<Rightarrow> int" where
  "back_to_start s lim start =
     (if start \<ge> lim \<and> start \<ge> 0 then
        (if RuneStart (s ! nat start) then start else back_to_start s lim (start - 1))
      else start)"
  by pat_completeness auto
termination
  by (relation "measure (\<lambda>(s, lim, start). nat (start + 1))") auto

declare back_to_start.simps [simp del]

definition last_rune_start :: "string \<Rightarrow> nat" where
  "last_rune_start s =
     (let end = int (length s);
          lim = (if end - 4 < 0 then 0 else end - 4);
          start = back_to_start s lim (end - 2)
      in nat (if start < 0 then 0 else start))"

definition DecodeLastRuneInString :: "string \<Rightarrow> int \<times> nat" where
  "DecodeLastRuneInString s =
     (if s = [] then (RuneError, 0)
      else if (of_char (last s) :: int) < 0x80 then (of_char (last s), 1)
      else
        let start = last_rune_start s;
            d = DecodeRuneInString (drop start s)
        in if start + snd d \<noteq> length s then (RuneError, 1) else d)"

lemma back_to_start_le: "back_to_start s lim start \<le> start"
  by (induction s lim start rule: back_to_start.induct)
     (subst back_to_start.simps, auto)

lemma last_rune_start_less: "s \<noteq> [] \<Longrightarrow> last_rune_start s < length s"
  using back_to_start_le [of s "if int (length s) - 4 < 0 then 0 else int (length s) - 4" "int (length s) - 2"]
  by (auto simp: last_rune_start_def Let_def)

lemma DecodeLastRuneInString_size:
  assumes "s \<noteq> []"
  shows "0 < snd (DecodeLastRuneInString s) \<and> snd (DecodeLastRuneInString s) \<le> length s"
proof -
  have ne: "drop (last_rune_start s) s \<noteq> []"
    using last_rune_start_less [OF assms] by simp
  have pos: "0 < rune_len (drop (last_rune_start s) s)"
    using ne by (rule rune_len_pos)
  have le: "rune_len (drop (last_rune_start s) s) \<le> length s"
    using rune_len_le [of "drop (last_rune_start s) s"] by simp
  show ?thesis
    using assms pos le
    by (auto simp: DecodeLastRuneInString_def Let_def rune_len_def Suc_le_eq)
qed

function trim_left :: "string \<Rightarrow> string" where
  "trim_left s =
     (if s \<noteq> [] \<and> IsSpace (fst (DecodeRuneInString s)) then trim_left (drop (rune_len s) s)
      else s)"
  by pat_completeness auto
termination
  by (relation "measure length") (auto simp: rune_len_pos)

function trim_right :: "string \<Rightarrow> string" where
  "trim_right s =
     (if s \<noteq> [] \<and> IsSpace (fst (DecodeLastRuneInString s))
      then trim_right (take (length s - snd (DecodeLastRuneInString s)) s)
      else s)"
  by pat_completeness auto
termination
proof (relation "measure length", goal_cases)
  case 1
  show ?case by simp
next
  case (2 s)
  then show ?case using DecodeLastRuneInString_size [of s] by auto
qed

declare trim_left.simps [simp del] trim_right.simps [simp del]

definition TrimSpace :: "string \<Rightarrow> string" where
  "TrimSpace s = trim_right (trim_left s)"

subsection \<open>strings.LastIndexAny\<close>

text \<open>
  \<open>strings.LastIndexAny(s, chars)\<close> for ASCII \<open>chars\<close> and a string of more than
  eight bytes (the only way the file calls it): a scan over the bytes from the end; -1
  when none of them is in \<open>chars\<close>.
\<close>

fun scan_back :: "string \<Rightarrow> string \<Rightarrow> nat \<Rightarrow> int" where
  "scan_back s chars 0 = -1"
| "scan_back s chars (Suc i) = (if s ! i \<in> set chars then int i else scan_back s chars i)"

definition LastIndexAny :: "string \<Rightarrow> string \<Rightarrow> int" where
  "LastIndexAny s chars = (if chars = [] then -1 else scan_back s chars (length s))"

section \<open>The regular expressions of summarize.go\<close>

text \<open>
  Go's \<open>regexp\<close> package returns the leftmost match and, among the matches that start
  there, the one a backtracking search finds first. Every pattern of the analysed file is
  a sequence of items, each a single character or character class, some repeated; the
  model is a backtracking matcher over such sequences. The matcher reads the input rune
  by rune; a class is a predicate on the bytes of one rune.
\<close>

datatype item =
    Chr "string \<Rightarrow> bool"
  | Rep "string \<Rightarrow> bool" nat "nat option" bool

fun below :: "nat \<Rightarrow> nat option \<Rightarrow> bool" where
  "below n None = True"
| "below n (Some m) = (n < m)"

fun add_chunk :: "string \<Rightarrow> (string list \<times> string) option \<Rightarrow> (string list \<times> string) option" where
  "add_chunk r None = None"
| "add_chunk r (Some (chunks, rest)) = Some (r # chunks, rest)"

fun grow_chunk :: "string \<Rightarrow> (string list \<times> string) option \<Rightarrow> (string list \<times> string) option" where
  "grow_chunk r (Some (c # chunks, rest)) = Some ((r @ c) # chunks, rest)"
| "grow_chunk r _ = None"

function match_items :: "item list \<Rightarrow> nat \<Rightarrow> string \<Rightarrow> (string list \<times> string) option" where
  "match_items [] n s = Some ([], s)"
| "match_items (Chr cls # its) n s =
     (if s \<noteq> [] \<and> cls (take (rune_len s) s)
      then add_chunk (take (rune_len s) s) (match_items its 0 (drop (rune_len s) s))
      else None)"
| "match_items (Rep cls mn mx greedy # its) n s =
     (if greedy then
        (case (if s \<noteq> [] \<and> below n mx \<and> cls (take (rune_len s) s)
               then grow_chunk (take (rune_len s) s)
                      (match_items (Rep cls mn mx greedy # its) (Suc n) (drop (rune_len s) s))
               else None) of
           Some r \<Rightarrow> Some r
         | None \<Rightarrow> (if mn \<le> n then add_chunk [] (match_items its 0 s) else None))
      else
        (case (if mn \<le> n then add_chunk [] (match_items its 0 s) else None) of
           Some r \<Rightarrow> Some r
         | None \<Rightarrow>
            (if s \<noteq> [] \<and> below n mx \<and> cls (take (rune_len s) s)
             then grow_chunk (take (rune_len s) s)
                    (match_items (Rep cls mn mx greedy # its) (Suc n) (drop (rune_len s) s))
             else None)))"
  by pat_completeness auto
termination
  by (relation "measures [\<lambda>(its, n, s). length its, \<lambda>(its, n, s). length s]")
     (auto simp: rune_len_pos)

lemmas match_items_Rep = match_items.simps(3)

declare match_items.simps(2,3) [simp del]

lemma add_chunk_Some:
  "add_chunk r x = Some (chunks, rest) \<longleftrightarrow> (\<exists>cs. x = Some (cs, rest) \<and> chunks = r # cs)"
  by (cases "(r, x)" rule: add_chunk.cases) auto

lemma grow_chunk_Some:
  "grow_chunk r x = Some (chunks, rest)
     \<longleftrightarrow> (\<exists>c cs. x = Some (c # cs, rest) \<and> chunks = (r @ c) # cs)"
  by (cases "(r, x)" rule: grow_chunk.cases) auto

lemma match_Chr_Some:
  "match_items (Chr cls # its) n s = Some (chunks, rest) \<longleftrightarrow>
     s \<noteq> [] \<and> cls (take (rune_len s) s) \<and>
     (\<exists>cs. match_items its 0 (drop (rune_len s) s) = Some (cs, rest)
           \<and> chunks = take (rune_len s) s # cs)"
  by (simp add: match_items.simps(2) add_chunk_Some)

lemma match_Rep_cases:
  assumes "match_items (Rep cls mn mx greedy # its) n s = Some (chunks, rest)"
  obtains (more) c cs where "s \<noteq> []" "below n mx" "cls (take (rune_len s) s)"
      "match_items (Rep cls mn mx greedy # its) (Suc n) (drop (rune_len s) s) = Some (c # cs, rest)"
      "chunks = (take (rune_len s) s @ c) # cs"
  | (stop) cs where "mn \<le> n" "match_items its 0 s = Some (cs, rest)" "chunks = [] # cs"
proof -
  from assms have
    "(s \<noteq> [] \<and> below n mx \<and> cls (take (rune_len s) s) \<and>
      grow_chunk (take (rune_len s) s)
        (match_items (Rep cls mn mx greedy # its) (Suc n) (drop (rune_len s) s)) = Some (chunks, rest))
     \<or> (mn \<le> n \<and> add_chunk [] (match_items its 0 s) = Some (chunks, rest))"
    by (subst (asm) match_items_Rep) (simp split: if_splits option.splits)
  then show thesis
    using more stop by (auto simp: add_chunk_Some grow_chunk_Some)
qed


lemma match_items_induct [case_names Nil Chr Rep]:
  assumes nil: "\<And>n s. P [] n s"
    and chr: "\<And>cls its n s. (s \<noteq> [] \<Longrightarrow> P its 0 (drop (rune_len s) s)) \<Longrightarrow> P (Chr cls # its) n s"
    and rep: "\<And>cls mn mx greedy its n s.
        (s \<noteq> [] \<Longrightarrow> P (Rep cls mn mx greedy # its) (Suc n) (drop (rune_len s) s))
         \<Longrightarrow> P its 0 s \<Longrightarrow> P (Rep cls mn mx greedy # its) n s"
  shows "P its n s"
proof (induction its arbitrary: n s)
  case Nil
  show ?case by (rule nil)
next
  case (Cons it its)
  show ?case
  proof (cases it)
    case (Chr cls)
    show ?thesis unfolding Chr by (rule chr) (rule Cons.IH)
  next
    case (Rep cls mn mx greedy)
    have "P (Rep cls mn mx greedy # its) k t" for k t
    proof (induction "length t" arbitrary: k t rule: less_induct)
      case less
      show ?case
      proof (rule rep)
        assume "t \<noteq> []"
        then have "length (drop (rune_len t) t) < length t"
          by (simp add: rune_len_pos)
        then show "P (Rep cls mn mx greedy # its) (Suc k) (drop (rune_len t) t)"
          by (rule less.hyps)
      next
        show "P its 0 t" by (rule Cons.IH)
      qed
    qed
    then show ?thesis unfolding Rep .
  qed
qed

lemma match_items_concat:
  "match_items its n s = Some (chunks, rest) \<Longrightarrow> s = concat chunks @ rest \<and> length chunks = length its"
proof (induction its n s arbitrary: chunks rest rule: match_items_induct)
  case (Nil n s)
  then show ?case by simp
next
  case (Chr cls its n s)
  from Chr.prems obtain cs where ne: "s \<noteq> []"
    and m: "match_items its 0 (drop (rune_len s) s) = Some (cs, rest)"
    and c: "chunks = take (rune_len s) s # cs"
    by (auto simp: match_Chr_Some)
  from Chr.IH [OF ne m] have "drop (rune_len s) s = concat cs @ rest \<and> length cs = length its" .
  with c show ?case
    by (metis append_take_drop_id concat.simps(2) append_assoc length_Cons)
next
  case (Rep cls mn mx greedy its n s)
  from Rep.prems show ?case
  proof (cases rule: match_Rep_cases)
    case (more c cs)
    from Rep.IH(1) [OF more(1,4)]
    have "drop (rune_len s) s = concat (c # cs) @ rest \<and> length (c # cs) = length (Rep cls mn mx greedy # its)" .
    with more(5) show ?thesis
      by (metis append_take_drop_id concat.simps(2) append_assoc length_Cons)
  next
    case (stop cs)
    from Rep.IH(2) [OF stop(2)] stop(3) show ?thesis by simp
  qed
qed


text \<open>
  The leftmost match: the pattern is tried at the start of the input and then after each
  rune in turn. The result is the text before the match, the chunk of every item of
  the pattern, and the text after the match.
\<close>

function find_match :: "item list \<Rightarrow> string \<Rightarrow> (string \<times> string list \<times> string) option" where
  "find_match re s =
     (case match_items re 0 s of
        Some (chunks, rest) \<Rightarrow> Some ([], chunks, rest)
      | None \<Rightarrow>
          (if s = [] then None
           else (case find_match re (drop (rune_len s) s) of
                   Some (pre, chunks, rest) \<Rightarrow> Some (take (rune_len s) s @ pre, chunks, rest)
                 | None \<Rightarrow> None)))"
  by pat_completeness auto
termination
  by (relation "measure (\<lambda>(re, s). length s)") (auto simp: rune_len_pos)

declare find_match.simps [simp del]

lemma find_match_concat:
  "find_match re s = Some (pre, chunks, rest) \<Longrightarrow> s = pre @ concat chunks @ rest"
proof (induction re s arbitrary: pre rule: find_match.induct)
  case (1 re s)
  show ?case
  proof (cases "match_items re 0 s")
    case (Some r)
    with "1.prems" show ?thesis
      by (subst (asm) find_match.simps) (auto dest: match_items_concat)
  next
    case None
    with "1.prems" obtain p where ne: "s \<noteq> []"
      and f: "find_match re (drop (rune_len s) s) = Some (p, chunks, rest)"
      and p: "pre = take (rune_len s) s @ p"
      by (subst (asm) find_match.simps) (auto split: if_splits option.splits)
    from "1.IH" [OF None ne f] have "drop (rune_len s) s = p @ concat chunks @ rest" .
    with p show ?thesis
      by (metis append_take_drop_id append_assoc)
  qed
qed

text \<open>
  \<open>re.FindStringSubmatch(s)\<close>: nil (the empty list) when nothing matches, otherwise the
  whole match followed by the text of the capture group; the group is the item of the
  pattern at index \<open>g\<close>.
\<close>

definition FindStringSubmatch :: "item list \<Rightarrow> nat \<Rightarrow> string \<Rightarrow> string list" where
  "FindStringSubmatch re g s =
     (case find_match re s of
        None \<Rightarrow> []
      | Some (pre, chunks, rest) \<Rightarrow> [concat chunks, chunks ! g])"

text \<open>
  \<open>re.ReplaceAllString(src, repl)\<close> for a replacement without \<open>$\<close>: every match, found
  from left to right after the end of the one before, is replaced. After an empty match
  Go copies one rune and goes on behind it; no pattern of the file matches the empty string.
\<close>

function ReplaceAllString :: "item list \<Rightarrow> string \<Rightarrow> string \<Rightarrow> string" where
  "ReplaceAllString re src repl =
     (case find_match re src of
        None \<Rightarrow> src
      | Some (pre, chunks, rest) \<Rightarrow>
          if concat chunks \<noteq> [] then pre @ repl @ ReplaceAllString re rest repl
          else if rest = [] then pre @ repl
          else pre @ repl @ take (rune_len rest) rest
                 @ ReplaceAllString re (drop (rune_len rest) rest) repl)"
  by pat_completeness auto
termination
proof (relation "measure (\<lambda>(re, src, repl). length src)", goal_cases)
  case 1
  show ?case by simp
next
  case (2 re src repl x2 pre y chunks rest)
  then show ?case by (auto dest!: find_match_concat)
next
  case (3 re src repl x2 pre y chunks rest)
  then have "src = pre @ concat chunks @ rest" and "0 < rune_len rest" and "rest \<noteq> []"
    by (auto dest!: find_match_concat simp: rune_len_pos)
  then show ?case by (cases rest) auto
qed

declare ReplaceAllString.simps [simp del]

subsection \<open>The patterns\<close>

text \<open>
  Under \<open>(?i)\<close> a letter of the pattern matches itself in either case and the runes that
  fold to it: U+017F for \<open>s\<close>, U+212A for \<open>k\<close>.
\<close>

definition lit :: "string \<Rightarrow> item list" where
  "lit s = map (\<lambda>c. Chr (\<lambda>r. r = [c])) s"

definition swap_case :: "char \<Rightarrow> char" where
  "swap_case c =
     (let b = (of_char c :: int) in
      if 0x41 \<le> b \<and> b \<le> 0x5A then char_of (b + 0x20)
      else if 0x61 \<le> b \<and> b \<le> 0x7A then char_of (b - 0x20)
      else c)"

definition fold_class :: "char \<Rightarrow> string \<Rightarrow> bool" where
  "fold_class c r \<longleftrightarrow>
     r = [c] \<or> r = [swap_case c]
     \<or> ((c = CHR ''s'' \<or> c = CHR ''S'') \<and> r = [CHR 0xC5, CHR 0xBF])
     \<or> ((c = CHR ''k'' \<or> c = CHR ''K'') \<and> r = [CHR 0xE2, CHR 0x84, CHR 0xAA])"

definition lit_i :: "string \<Rightarrow> item list" where
  "lit_i s = map (\<lambda>c. Chr (fold_class c)) s"

definition not_gt :: "string \<Rightarrow> bool" where
  "not_gt r \<longleftrightarrow> r \<noteq> ''>''"

definition not_lt :: "string \<Rightarrow> bool" where
  "not_lt r \<longleftrightarrow> r \<noteq> ''<''"

definition quote :: "string \<Rightarrow> bool" where
  "quote r \<longleftrightarrow> r = [CHR 0x22] \<or> r = [CHR 0x27]"

definition not_quote :: "string \<Rightarrow> bool" where
  "not_quote r \<longleftrightarrow> \<not> quote r"

definition any_rune :: "string \<Rightarrow> bool" where
  "any_rune r \<longleftrightarrow> True"

definition space_class :: "string \<Rightarrow> bool" where
  "space_class r \<longleftrightarrow> r \<in> {[CHR 0x09], [CHR 0x0A], [CHR 0x0C], [CHR 0x0D], [CHR 0x20]}"

text \<open>\<open>(?is)<NAME[^>]*>.*?</NAME>\<close>, for script, style, nav, footer and header.\<close>

definition re_block :: "string \<Rightarrow> item list" where
  "re_block name =
     lit_i (''<'' @ name) @ [Rep not_gt 0 None True] @ lit ''>''
       @ [Rep any_rune 0 None False] @ lit_i (''</'' @ name @ ''>'')"

text \<open>\<open><[^>]+>\<close>\<close>

definition re_tag :: "item list" where
  "re_tag = lit ''<'' @ [Rep not_gt 1 None True] @ lit ''>''"

text \<open>\<open>\s+\<close>\<close>

definition re_spaces :: "item list" where
  "re_spaces = [Rep space_class 1 None True]"

text \<open>
  \<open>(?i)<meta[^>]+ATTR=["']VALUE["'][^>]+content=["']([^"']+)["']\<close>, for
  \<open>name="description"\<close> and \<open>property="og:description"\<close>. The capture group is the
  last item but one.
\<close>

definition re_meta :: "string \<Rightarrow> string \<Rightarrow> item list" where
  "re_meta attr val =
     lit_i ''<meta'' @ [Rep not_gt 1 None True] @ lit_i (attr @ ''='') @ [Chr quote]
       @ lit_i val @ [Chr quote] @ [Rep not_gt 1 None True] @ lit_i ''content='' @ [Chr quote]
       @ [Rep not_quote 1 None True] @ [Chr quote]"

definition meta_group :: "string \<Rightarrow> string \<Rightarrow> nat" where
  "meta_group attr val = length (re_meta attr val) - 2"

text \<open>\<open>(?is)<p[^>]*>([^<]{50,500})</p>\<close>; the capture group is item 4.\<close>

definition re_paragraph :: "item list" where
  "re_paragraph =
     lit_i ''<p'' @ [Rep not_gt 0 None True] @ lit ''>'' @ [Rep not_lt 50 (Some 500) True]
       @ lit_i ''</p>''"

definition paragraph_group :: nat where
  "paragraph_group = 4"

section \<open>summarize.go\<close>

subsection \<open>extractText\<close>

text \<open>
  Lines 113 to 118 of \<open>summarize.go\<close>: the six replacements run one after the other,
  each over the whole result of the one before.
\<close>

definition decodeEntities :: "string \<Rightarrow> string" where
  "decodeEntities text0 =
     (let text1 = ReplaceAll text0 ''&nbsp;'' '' '';
          text2 = ReplaceAll text1 ''&amp;'' ''&'';
          text3 = ReplaceAll text2 ''&lt;'' ''<'';
          text4 = ReplaceAll text3 ''&gt;'' ''>'';
          text5 = ReplaceAll text4 ''&quot;'' [CHR 0x22];
          text6 = ReplaceAll text5 ''&#39;'' [CHR 0x27]
      in text6)"

definition entities :: "string list" where
  "entities = [''&nbsp;'', ''&amp;'', ''&lt;'', ''&gt;'', ''&quot;'', ''&#39;'']"

definition extractText :: "string \<Rightarrow> string" where
  "extractText html0 =
     (let html1 = ReplaceAllString (re_block ''script'') html0 '' '';
          html2 = ReplaceAllString (re_block ''style'') html1 '' '';
          html3 = ReplaceAllString (re_block ''nav'') html2 '' '';
          html4 = ReplaceAllString (re_block ''footer'') html3 '' '';
          html5 = ReplaceAllString (re_block ''header'') html4 '' '';
          text0 = ReplaceAllString re_tag html5 '' '';
          text1 = decodeEntities text0;
          text2 = ReplaceAllString re_spaces text1 '' ''
      in TrimSpace text2)"

subsection \<open>generateSummary\<close>

text \<open>
  The function assigns to one variable \<open>summary\<close>, block after block. Each block is a
  definition that takes the value of \<open>summary\<close> before it and returns the value after it.
\<close>

text \<open>Lines 130 to 134: try to get the meta description first.\<close>

definition try_meta_description :: "string \<Rightarrow> string \<Rightarrow> string" where
  "try_meta_description html summary =
     (let m = FindStringSubmatch (re_meta ''name'' ''description'')
                (meta_group ''name'' ''description'') html
      in if length m > 1 then TrimSpace (m ! 1) else summary)"

text \<open>Lines 136 to 142: try og:description.\<close>

definition try_og_description :: "string \<Rightarrow> string \<Rightarrow> string" where
  "try_og_description html summary =
     (if summary = [] then
        (let m = FindStringSubmatch (re_meta ''property'' ''og:description'')
                   (meta_group ''property'' ''og:description'') html
         in if length m > 1 then TrimSpace (m ! 1) else summary)
      else summary)"

text \<open>Lines 144 to 155: try to find the first paragraph.\<close>

definition try_first_paragraph :: "string \<Rightarrow> string \<Rightarrow> string" where
  "try_first_paragraph html summary =
     (if summary = [] then
        (let m = FindStringSubmatch re_paragraph paragraph_group html
         in if length m > 1 then
              (let p = ReplaceAllString re_tag (m ! 1) [];
                   p = TrimSpace p
               in if length p > 50 then p else summary)
            else summary)
      else summary)"

text \<open>Lines 157 to 169: fall back to the first part of the text.\<close>

definition fall_back_to_text :: "string \<Rightarrow> string \<Rightarrow> string" where
  "fall_back_to_text text summary =
     (if summary = [] \<and> length text > 100 then
        (let end = (if length text < 300 then length text else 300);
             summary = take end text;
             idx = LastIndexAny summary ''.!?''
         in if idx > 100 then take (nat (idx + 1)) summary else summary)
      else summary)"

text \<open>Lines 171 to 174: truncate if too long.\<close>

definition truncate_summary :: "string \<Rightarrow> string" where
  "truncate_summary summary =
     (if length summary > 500 then take 500 summary @ ''...'' else summary)"

definition generateSummary :: "string \<Rightarrow> string \<Rightarrow> string" where
  "generateSummary html text =
     (let summary = [];
          summary = try_meta_description html summary;
          summary = try_og_description html summary;
          summary = try_first_paragraph html summary;
          summary = fall_back_to_text text summary;
          summary = truncate_summary summary
      in summary)"

subsection \<open>extractKeywords\<close>

text \<open>Lines 15 to 41: the keys of the map \<open>stopWords\<close> (every value is \<open>true\<close>).\<close>

definition stopWords :: "string list" where
  "stopWords =
     [''the'', ''a'', ''an'', ''and'', ''or'', ''but'',
      ''in'', ''on'', ''at'', ''to'', ''for'', ''of'',
      ''with'', ''by'', ''from'', ''as'', ''is'', ''was'',
      ''are'', ''were'', ''been'', ''be'', ''have'', ''has'',
      ''had'', ''do'', ''does'', ''did'', ''will'', ''would'',
      ''could'', ''should'', ''may'', ''might'', ''must'',
      ''shall'', ''can'', ''need'', ''dare'', ''ought'',
      ''used'', ''this'', ''that'', ''these'', ''those'',
      ''i'', ''you'', ''he'', ''she'', ''it'', ''we'', ''they'',
      ''what'', ''which'', ''who'', ''whom'', ''whose'',
      ''where'', ''when'', ''why'', ''how'', ''all'', ''each'',
      ''every'', ''both'', ''few'', ''more'', ''most'', ''other'',
      ''some'', ''such'', ''no'', ''nor'', ''not'', ''only'',
      ''own'', ''same'', ''so'', ''than'', ''too'', ''very'',
      ''just'', ''also'', ''now'', ''here'', ''there'', ''then'',
      ''once'', ''about'', ''into'', ''through'', ''during'',
      ''before'', ''after'', ''above'', ''below'', ''between'',
      ''under'', ''again'', ''further'', ''if'', ''because'',
      ''until'', ''while'', ''your'', ''our'', ''their'', ''my'',
      ''its'', ''his'', ''her'', ''up'', ''down'', ''out'',
      ''off'', ''over'', ''any'', ''get'', ''got'', ''like'',
      ''make'', ''made'', ''new'', ''one'', ''two'', ''first'',
      ''even'', ''way'', ''well'', ''back'', ''being'', ''want'',
      ''use'', ''using'', ''click'', ''page'', ''website'',
      ''http'', ''https'', ''www'', ''com'', ''org'', ''net'']"

text \<open>
  What the function takes from the Go runtime and library and the file does not fix:
  the Unicode tables behind \<open>strings.ToLower\<close>, \<open>unicode.IsLetter\<close> and
  \<open>unicode.IsNumber\<close>, the order in which \<open>range\<close> visits the entries of a map (not
  specified by the language), and the algorithm of \<open>sort.Slice\<close> (not stable). They are
  the fields of a record that the model takes as a parameter.
\<close>

type_synonym wordFreq = "string \<times> nat"

record runtime =
  ToLower :: "string \<Rightarrow> string"
  IsLetter :: "int \<Rightarrow> bool"
  IsNumber :: "int \<Rightarrow> bool"
  map_range :: "wordFreq list \<Rightarrow> wordFreq list"
  sort_Slice :: "(wordFreq \<Rightarrow> wordFreq \<Rightarrow> bool) \<Rightarrow> wordFreq list \<Rightarrow> wordFreq list"

text \<open>
  \<open>strings.FieldsFunc(s, f)\<close>: the maximal runs of runes that do not satisfy \<open>f\<close>.
  \<open>cur\<close> is the field being read; it is empty between fields.
\<close>

fun fields_loop :: "(int \<Rightarrow> bool) \<Rightarrow> (int \<times> string) list \<Rightarrow> string \<Rightarrow> string list" where
  "fields_loop f [] cur = (if cur = [] then [] else [cur])"
| "fields_loop f ((r, bytes) # rs) cur =
     (if f r then (if cur = [] then fields_loop f rs [] else cur # fields_loop f rs [])
      else fields_loop f rs (cur @ bytes))"

definition FieldsFunc :: "string \<Rightarrow> (int \<Rightarrow> bool) \<Rightarrow> string list" where
  "FieldsFunc s f = fields_loop f (range_string s) []"

text \<open>
  \<open>wordCounts[word]++\<close> on the map, kept as a list of entries with distinct keys. The
  order of the list is the order of first insertion; Go does not expose it, and the
  function reads the map only through \<open>map_range\<close>.
\<close>

fun increment :: "string \<Rightarrow> wordFreq list \<Rightarrow> wordFreq list" where
  "increment w [] = [(w, 1)]"
| "increment w ((k, c) # m) = (if k = w then (k, c + 1) # m else (k, c) # increment w m)"

text \<open>Lines 186 to 205: the loop over the words.\<close>

fun count_loop :: "runtime \<Rightarrow> string list \<Rightarrow> wordFreq list \<Rightarrow> wordFreq list" where
  "count_loop rt [] wordCounts = wordCounts"
| "count_loop rt (word0 # words) wordCounts =
     (let word = TrimSpace word0 in
      if length word < 3 \<or> length word > 30 then count_loop rt words wordCounts
      else if word \<in> set stopWords then count_loop rt words wordCounts
      else
        let numCount = length (filter (\<lambda>(r, bytes). IsNumber rt r) (range_string word)) in
        if numCount > length word div 2 then count_loop rt words wordCounts
        else count_loop rt words (increment word wordCounts))"

definition wordCounts :: "runtime \<Rightarrow> string \<Rightarrow> wordFreq list" where
  "wordCounts rt text =
     count_loop rt
       (FieldsFunc (ToLower rt text) (\<lambda>r. \<not> IsLetter rt r \<and> \<not> IsNumber rt r)) []"

text \<open>The \<open>less\<close> function handed to \<open>sort.Slice\<close>: a higher count comes first.\<close>

definition by_count :: "wordFreq \<Rightarrow> wordFreq \<Rightarrow> bool" where
  "by_count a b \<longleftrightarrow> snd a > snd b"

definition extractKeywords :: "runtime \<Rightarrow> string \<Rightarrow> string list" where
  "extractKeywords rt text =
     (let freqs = filter (\<lambda>(word, count). count \<ge> 2) (map_range rt (wordCounts rt text));
          freqs = sort_Slice rt by_count freqs
      in map fst (take 15 freqs))"

text \<open>
  What the language and the library promise of the two: \<open>range\<close> visits every entry of
  the map once, and \<open>sort.Slice\<close> returns a permutation of the slice in which no element
  is \<open>less\<close> than one before it.
\<close>

definition runtime_ok :: "runtime \<Rightarrow> bool" where
  "runtime_ok rt \<longleftrightarrow>
     (\<forall>m. mset (map_range rt m) = mset m)
     \<and> (\<forall>xs. mset (sort_Slice rt by_count xs) = mset xs)
     \<and> (\<forall>xs. sorted_wrt (\<lambda>a b. \<not> by_count b a) (sort_Slice rt by_count xs))"


subsection \<open>analyzeURL\<close>

record ContentAnalysis =
  Summary :: string
  Keywords :: "string list"

text \<open>
  The network is a parameter: \<open>http.NewRequest\<close> (it fails on a URL it cannot parse)
  and \<open>client.Do\<close> with the 15 second timeout of the client. A response carries the
  bytes its body delivers and the error, if any, that ends the body instead of EOF.
\<close>

record request =
  Method :: string
  URL :: string
  Header :: "string \<rightharpoonup> string"

record 'e response =
  Body :: string
  BodyErr :: "'e option"

record 'e network =
  NewRequest :: "string \<Rightarrow> string \<Rightarrow> 'e + request"
  Do :: "request \<Rightarrow> 'e + 'e response"

text \<open>
  \<open>io.ReadAll(io.LimitReader(resp.Body, n))\<close>: the bytes read and the error of the read.
  The limited reader reports EOF after \<open>n\<close> bytes without reading further.
\<close>

definition ReadAll_LimitReader :: "'e response \<Rightarrow> nat \<Rightarrow> string \<times> 'e option" where
  "ReadAll_LimitReader resp n =
     (take n (Body resp), if length (Body resp) < n then BodyErr resp else None)"

text \<open>
  The function returns a result and an error, or panics: the error of \<open>http.NewRequest\<close>
  is dropped, and on a URL that does not parse the request is nil and \<open>req.Header\<close>
  dereferences it.
\<close>

datatype 'e outcome = Panic | Error 'e | Result ContentAnalysis

definition set_user_agent :: "request \<Rightarrow> request" where
  "set_user_agent req =
     req\<lparr>Header := (Header req)(''User-Agent'' \<mapsto>
       ''Mozilla/5.0 (Windows NT 10.0; Win64; x64) AppleWebKit/537.36'')\<rparr>"

definition analyzeURL :: "'e network \<Rightarrow> runtime \<Rightarrow> string \<Rightarrow> 'e outcome" where
  "analyzeURL net rt url =
     (case NewRequest net ''GET'' url of
        Inl _ \<Rightarrow> Panic
      | Inr req \<Rightarrow>
          (case Do net (set_user_agent req) of
             Inl err \<Rightarrow> Error err
           | Inr resp \<Rightarrow>
               (let (body, _) = ReadAll_LimitReader resp 500000;
                    html = body;
                    text = extractText html;
                    summary = generateSummary html text;
                    keywords = extractKeywords rt text
                in Result \<lparr>Summary = summary, Keywords = keywords\<rparr>)))"


text \<open>What the pipeline makes of the bytes read.\<close>

definition analysis_of :: "runtime \<Rightarrow> string \<Rightarrow> ContentAnalysis" where
  "analysis_of rt html =
     \<lparr>Summary = generateSummary html (extractText html),
      Keywords = extractKeywords rt (extractText html)\<rparr>"


section \<open>Concrete inputs\<close>

text \<open>
  A runtime to evaluate with, for ASCII text: the three Unicode functions as they are on
  ASCII, and the insertion sort that \<open>sort.Slice\<close> runs on a slice of at most twelve
  elements (it moves an element towards the front while it is \<open>less\<close> than the one before).
\<close>

definition ascii_ToLower :: "string \<Rightarrow> string" where
  "ascii_ToLower s =
     map (\<lambda>c. if 0x41 \<le> (of_char c :: int) \<and> (of_char c :: int) \<le> 0x5A
               then char_of ((of_char c :: int) + 0x20) else c) s"

definition ascii_IsLetter :: "int \<Rightarrow> bool" where
  "ascii_IsLetter r \<longleftrightarrow> (0x41 \<le> r \<and> r \<le> 0x5A) \<or> (0x61 \<le> r \<and> r \<le> 0x7A)"

definition ascii_IsNumber :: "int \<Rightarrow> bool" where
  "ascii_IsNumber r \<longleftrightarrow> 0x30 \<le> r \<and> r \<le> 0x39"

text \<open>The sorted part is kept back to front: its head is the element just before \<open>x\<close>.\<close>

fun insert_back :: "('a \<Rightarrow> 'a \<Rightarrow> bool) \<Rightarrow> 'a \<Rightarrow> 'a list \<Rightarrow> 'a list" where
  "insert_back lt x [] = [x]"
| "insert_back lt x (y # ys) = (if lt x y then y # insert_back lt x ys else x # y # ys)"

definition insertionSort :: "('a \<Rightarrow> 'a \<Rightarrow> bool) \<Rightarrow> 'a list \<Rightarrow> 'a list" where
  "insertionSort lt xs = rev (foldl (\<lambda>acc x. insert_back lt x acc) [] xs)"

definition ascii_runtime :: "(wordFreq list \<Rightarrow> wordFreq list) \<Rightarrow> runtime" where
  "ascii_runtime order =
     \<lparr>ToLower = ascii_ToLower, IsLetter = ascii_IsLetter, IsNumber = ascii_IsNumber,
      map_range = order, sort_Slice = insertionSort\<rparr>"

text \<open>A network that answers every request with the given response.\<close>

definition serving :: "'e response \<Rightarrow> 'e network" where
  "serving resp =
     \<lparr>NewRequest = (\<lambda>method url. Inr \<lparr>Method = method, URL = url, Header = Map.empty\<rparr>),
      Do = (\<lambda>req. Inr resp)\<rparr>"

definition dq :: string where
  "dq = [CHR 0x22]"




definition function_page :: string where
  "function_page =
     ''<meta name='' @ dq @ ''description'' @ dq @ '' content='' @ dq @ ''function'' @ dq @ ''>''"

text \<open>The page of the spec's scenario A.\<close>

definition article_page :: string where
  "article_page =
     ''<meta property='' @ dq @ ''og:description'' @ dq @ '' content='' @ dq
       @ ''A great article about testing.'' @ dq @ ''><title>Test Page</title>''"

text \<open>Sixteen words, each of them twice.\<close>

definition sixteen_words :: string where
  "sixteen_words =
     ''kaa kab kac kad kae kaf kag kah kai kaj kak kal kam kan kao kap ''
     @ ''kaa kab kac kad kae kaf kag kah kai kaj kak kal kam kan kao kap''"

definition euro_paragraph :: string where
  "euro_paragraph = ''<p>'' @ concat (replicate 167 [CHR 0xE2, CHR 0x82, CHR 0xAC]) @ ''</p>''"

text \<open>A network on which every \<open>client.Do\<close> fails with the given error.\<close>

definition failing :: "'e \<Rightarrow> 'e network" where
  "failing e =
     \<lparr>NewRequest = (\<lambda>method url. Inr \<lparr>Method = method, URL = url, Header = Map.empty\<rparr>),
      Do = (\<lambda>req. Inl e)\<rparr>"


section \<open>Properties\<close>

subsection \<open>Runes\<close>

text \<open>A rune is one byte, or several bytes from 0x80 up.\<close>

lemma decode_lo:
  "(0x80::int) \<le> (if b0 = 0xE0 then 0xA0 else if b0 = 0xF0 then 0x90 else 0x80)"
  by simp

lemma rune_cases:
  "take (rune_len (c # cs)) (c # cs) = [c]
     \<or> (\<forall>b \<in> set (take (rune_len (c # cs)) (c # cs)). 0x80 \<le> (of_char b :: int))"
proof -
  define b0 where "b0 = (of_char c :: int)"
  define sz where "sz = (if b0 < 0xE0 then 2 else if b0 < 0xF0 then 3 else (4::nat))"
  define lo where "lo = (if b0 = 0xE0 then 0xA0 else if b0 = 0xF0 then 0x90 else (0x80::int))"
  define hi where "hi = (if b0 = 0xED then 0x9F else if b0 = 0xF4 then 0x8F else (0xBF::int))"
  have lo: "0x80 \<le> lo" by (simp add: lo_def)
  have sz: "sz = 2 \<or> sz = 3 \<or> sz = 4" by (simp add: sz_def)
  have eq: "rune_len (c # cs) =
      (if b0 < 0x80 then 1
       else if b0 < 0xC2 \<or> 0xF4 < b0 then 1
       else (case cs of [] \<Rightarrow> 1
         | c1 # cs1 \<Rightarrow>
            if of_char c1 < lo \<or> hi < of_char c1 then 1
            else if sz \<le> 2 then 2
            else (case cs1 of [] \<Rightarrow> 1
              | c2 # cs2 \<Rightarrow>
                 if (of_char c2 :: int) < 0x80 \<or> 0xBF < (of_char c2 :: int) then 1
                 else if sz \<le> 3 then 3
                 else (case cs2 of [] \<Rightarrow> 1
                   | c3 # cs3 \<Rightarrow>
                      if (of_char c3 :: int) < 0x80 \<or> 0xBF < (of_char c3 :: int) then 1 else 4))))"
    unfolding rune_len_def DecodeRuneInString.simps Let_def b0_def [symmetric]
      sz_def [symmetric] lo_def [symmetric] hi_def [symmetric]
    by (simp add: snd_if split: list.split)
  show ?thesis
  proof (cases "rune_len (c # cs) = 1")
    case True
    then show ?thesis by simp
  next
    case False
    then have b: "0x80 \<le> b0"
      by (auto simp: eq split: if_splits)
    show ?thesis
    proof (cases cs)
      case Nil
      from False eq show ?thesis unfolding Nil by (auto split: if_splits)
    next
      case c1: (Cons c1 cs1)
      from False eq lo have b1: "0x80 \<le> (of_char c1 :: int)"
        unfolding c1 by (auto split: if_splits)
      show ?thesis
      proof (cases "rune_len (c # cs) = 2")
        case True
        with b b1 show ?thesis by (simp add: c1 b0_def)
      next
        case n2: False
        show ?thesis
        proof (cases cs1)
          case Nil
          from False n2 eq show ?thesis unfolding c1 Nil by (auto split: if_splits)
        next
          case c2: (Cons c2 cs2)
          from False n2 eq have b2: "0x80 \<le> (of_char c2 :: int)"
            unfolding c1 c2 by (auto split: if_splits)
          show ?thesis
          proof (cases "rune_len (c # cs) = 3")
            case True
            with b b1 b2 show ?thesis by (simp add: c1 c2 b0_def numeral_3_eq_3)
          next
            case n3: False
            show ?thesis
            proof (cases cs2)
              case Nil
              from False n2 n3 eq show ?thesis unfolding c1 c2 Nil by (auto split: if_splits)
            next
              case c3: (Cons c3 cs3)
              from False n2 n3 eq have "0x80 \<le> (of_char c3 :: int) \<and> rune_len (c # cs) = 4"
                unfolding c1 c2 c3 by (auto split: if_splits)
              with b b1 b2 show ?thesis
                by (simp add: c1 c2 c3 b0_def)
            qed
          qed
        qed
      qed
    qed
  qed
qed

lemma rune_hd: "s \<noteq> [] \<Longrightarrow> hd (take (rune_len s) s) = hd s"
  using rune_len_pos [of s] by (simp add: hd_take)

subsection \<open>What a match consists of\<close>

lemma match_items_Chr_chunk:
  "match_items its n s = Some (chunks, rest) \<Longrightarrow> g < length its \<Longrightarrow> its ! g = Chr cls
     \<Longrightarrow> cls (chunks ! g)"
proof (induction its n s arbitrary: chunks g rule: match_items_induct)
  case (Nil n s)
  then show ?case by simp
next
  case (Chr cls' its n s)
  from Chr.prems(1) obtain cs where ne: "s \<noteq> []" and c: "cls' (take (rune_len s) s)"
    and m: "match_items its 0 (drop (rune_len s) s) = Some (cs, rest)"
    and ch: "chunks = take (rune_len s) s # cs"
    by (auto simp: match_Chr_Some)
  show ?case
  proof (cases g)
    case 0
    with Chr.prems(3) c ch show ?thesis by simp
  next
    case (Suc g')
    with Chr.prems(2,3) Chr.IH [OF ne m, of g'] ch show ?thesis by simp
  qed
next
  case (Rep cls' mn mx greedy its n s)
  from Rep.prems(1) show ?case
  proof (cases rule: match_Rep_cases)
    case (more c cs)
    from Rep.IH(1) [OF more(1,4) Rep.prems(2,3)] have "cls ((c # cs) ! g)" .
    moreover have "g \<noteq> 0" using Rep.prems(3) by (cases g) auto
    ultimately show ?thesis using more(5) by (cases g) auto
  next
    case (stop cs)
    show ?thesis
    proof (cases g)
      case 0
      with Rep.prems(3) show ?thesis by simp
    next
      case (Suc g')
      with Rep.prems(2,3) Rep.IH(2) [OF stop(2), of g'] stop(3) show ?thesis by simp
    qed
  qed
qed

lemma match_items_Rep_chunk:
  assumes "match_items its n s = Some (chunks, rest)" and "g < length its"
    and "its ! g = Rep cls mn mx greedy"
    and cls: "\<And>t. t \<noteq> [] \<Longrightarrow> cls (take (rune_len t) t) \<Longrightarrow> \<forall>b \<in> set (take (rune_len t) t). P b"
  shows "\<forall>b \<in> set (chunks ! g). P b"
  using assms(1-3)
proof (induction its n s arbitrary: chunks g rule: match_items_induct)
  case (Nil n s)
  then show ?case by simp
next
  case (Chr cls' its n s)
  from Chr.prems(1) obtain cs where ne: "s \<noteq> []"
    and m: "match_items its 0 (drop (rune_len s) s) = Some (cs, rest)"
    and ch: "chunks = take (rune_len s) s # cs"
    by (auto simp: match_Chr_Some)
  show ?case
  proof (cases g)
    case 0
    with Chr.prems(3) show ?thesis by simp
  next
    case (Suc g')
    with Chr.prems(2,3) Chr.IH [OF ne m, of g'] ch show ?thesis by simp
  qed
next
  case (Rep cls' mn' mx' greedy' its n s)
  from Rep.prems(1) show ?case
  proof (cases rule: match_Rep_cases)
    case (more c cs)
    from Rep.IH(1) [OF more(1,4) Rep.prems(2,3)] have ih: "\<forall>b \<in> set ((c # cs) ! g). P b" .
    show ?thesis
    proof (cases g)
      case 0
      with Rep.prems(3) have "cls' = cls" by simp
      with more(1,3) cls have "\<forall>b \<in> set (take (rune_len s) s). P b" by blast
      with ih 0 more(5) show ?thesis by auto
    next
      case (Suc g')
      with ih more(5) show ?thesis by simp
    qed
  next
    case (stop cs)
    show ?thesis
    proof (cases g)
      case 0
      with stop(3) show ?thesis by simp
    next
      case (Suc g')
      with Rep.prems(2,3) Rep.IH(2) [OF stop(2), of g'] stop(3) show ?thesis by simp
    qed
  qed
qed

subsection \<open>The leftmost match and the replacement\<close>

lemma find_match_None:
  "find_match re s = None \<longleftrightarrow>
     match_items re 0 s = None \<and> (s = [] \<or> find_match re (drop (rune_len s) s) = None)"
  by (subst find_match.simps) (auto split: option.splits)

lemma find_match_Some:
  "find_match re s = Some (pre, chunks, rest) \<longleftrightarrow>
     (match_items re 0 s = Some (chunks, rest) \<and> pre = [])
     \<or> (match_items re 0 s = None \<and> s \<noteq> []
         \<and> (\<exists>p. find_match re (drop (rune_len s) s) = Some (p, chunks, rest)
                \<and> pre = take (rune_len s) s @ p))"
  by (subst find_match.simps) (auto split: option.splits)

lemma find_match_match:
  "find_match re s = Some (pre, chunks, rest)
     \<Longrightarrow> match_items re 0 (concat chunks @ rest) = Some (chunks, rest)"
proof (induction re s arbitrary: pre rule: find_match.induct)
  case (1 re s)
  from "1.prems" show ?case
  proof (subst (asm) find_match_Some, elim disjE conjE exE)
    assume m: "match_items re 0 s = Some (chunks, rest)"
    then have "s = concat chunks @ rest" by (simp add: match_items_concat)
    with m show ?thesis by simp
  next
    fix p
    assume "match_items re 0 s = None" "s \<noteq> []"
      "find_match re (drop (rune_len s) s) = Some (p, chunks, rest)"
    then show ?thesis by (rule "1.IH")
  qed
qed

lemma ReplaceAllString_None:
  "find_match re src = None \<Longrightarrow> ReplaceAllString re src repl = src"
  by (subst ReplaceAllString.simps) simp

lemma ReplaceAllString_Some:
  "find_match re src = Some (pre, chunks, rest) \<Longrightarrow> concat chunks \<noteq> []
     \<Longrightarrow> ReplaceAllString re src repl = pre @ repl @ ReplaceAllString re rest repl"
  by (subst ReplaceAllString.simps) simp

lemma set_ReplaceAllString:
  "set (ReplaceAllString re src repl) \<subseteq> set src \<union> set repl"
proof (induction re src repl rule: ReplaceAllString.induct)
  case (1 re src repl)
  show ?case
  proof (cases "find_match re src")
    case None
    then show ?thesis by (simp add: ReplaceAllString_None)
  next
    case (Some r)
    obtain pre chunks rest where r: "r = (pre, chunks, rest)" by (cases r) auto
    have src: "src = pre @ concat chunks @ rest"
      using Some r by (simp add: find_match_concat)
    show ?thesis
    proof (cases "concat chunks \<noteq> []")
      case True
      have "set (ReplaceAllString re rest repl) \<subseteq> set rest \<union> set repl"
        using "1.IH"(1) [OF Some r [symmetric] refl True] .
      moreover have "ReplaceAllString re src repl = pre @ repl @ ReplaceAllString re rest repl"
        using Some r True by (simp add: ReplaceAllString_Some)
      ultimately show ?thesis
        using src by auto
    next
      case False
      show ?thesis
      proof (cases "rest = []")
        case True
        have "ReplaceAllString re src repl = pre @ repl"
          using Some r False True by (subst ReplaceAllString.simps) simp
        then show ?thesis using src by auto
      next
        case ne: False
        have "set (ReplaceAllString re (drop (rune_len rest) rest) repl)
            \<subseteq> set (drop (rune_len rest) rest) \<union> set repl"
          using "1.IH"(2) [OF Some r [symmetric] refl _ ne] False by simp
        moreover have "ReplaceAllString re src repl
            = pre @ repl @ take (rune_len rest) rest
                @ ReplaceAllString re (drop (rune_len rest) rest) repl"
          using Some r False ne by (subst ReplaceAllString.simps) simp
        moreover have "set (take (rune_len rest) rest) \<subseteq> set rest"
          and "set (drop (rune_len rest) rest) \<subseteq> set rest"
          by (auto dest: in_set_takeD in_set_dropD)
        ultimately show ?thesis
          using src by auto
      qed
    qed
  qed
qed

subsection \<open>The entity decoding\<close>

lemma replace_scan_absent:
  "\<not> sublist old s \<Longrightarrow> replace_scan old new s = s"
proof (induction s)
  case Nil
  show ?case by (subst replace_scan.simps) simp
next
  case (Cons c cs)
  have np: "\<not> prefix old (c # cs)" and ns: "\<not> sublist old cs"
    using Cons.prems by (simp_all add: sublist_Cons_right)
  from ns have "replace_scan old new cs = cs"
    by (rule Cons.IH)
  with np show ?case
    by (subst replace_scan.simps) simp
qed

lemma ReplaceAll_absent:
  "old \<noteq> [] \<Longrightarrow> \<not> Contains s old \<Longrightarrow> ReplaceAll s old new = s"
  by (simp add: ReplaceAll_def Contains_def replace_scan_absent)

lemma decodeEntities_absent:
  assumes "\<forall>e \<in> set entities. \<not> Contains s e"
  shows "decodeEntities s = s"
  using assms by (simp add: decodeEntities_def entities_def ReplaceAll_absent)

text \<open>
  C6: resolving \<open>&amp;\<close> must not create an entity that is decoded again in the same
  pass. The code replaces \<open>&amp;\<close> before \<open>&lt;\<close>, so on \<open>&amp;lt;\<close> the first replacement
  leaves \<open>&lt;\<close> and the next one turns it into \<open><\<close>; decoded once, the text is \<open>&lt;\<close>.
\<close>

theorem decodeEntities_decodes_twice:
  "decodeEntities ''&amp;lt;'' = ''<''"
  by code_simp

text \<open>
  Nor is the decoding idempotent on every string: on \<open>&amp;amp;\<close> one pass gives
  \<open>&amp;\<close> and a second pass gives \<open>&\<close>.
\<close>

theorem decodeEntities_not_idempotent:
  "decodeEntities (decodeEntities ''&amp;amp;'') \<noteq> decodeEntities ''&amp;amp;''"
  by code_simp

subsection \<open>generateSummary\<close>

lemma truncate_summary_empty: "truncate_summary s = [] \<longleftrightarrow> s = []"
  by (auto simp: truncate_summary_def)

lemma fall_back_to_text_empty: "fall_back_to_text text [] = [] \<longleftrightarrow> length text \<le> 100"
  by (auto simp: fall_back_to_text_def Let_def)

lemma fall_back_to_text_id: "summary \<noteq> [] \<Longrightarrow> fall_back_to_text text summary = summary"
  by (simp add: fall_back_to_text_def)

lemma try_og_description_id: "summary \<noteq> [] \<Longrightarrow> try_og_description html summary = summary"
  by (simp add: try_og_description_def)

lemma try_first_paragraph_id: "summary \<noteq> [] \<Longrightarrow> try_first_paragraph html summary = summary"
  by (simp add: try_first_paragraph_def)


text \<open>The value of \<open>summary\<close> before the last block.\<close>

definition untruncated :: "string \<Rightarrow> string \<Rightarrow> string" where
  "untruncated html text =
     fall_back_to_text text
       (try_first_paragraph html (try_og_description html (try_meta_description html [])))"

lemma generateSummary_untruncated:
  "generateSummary html text = truncate_summary (untruncated html text)"
  by (simp add: generateSummary_def untruncated_def)

text \<open>
  C1 (as stated, refuted): on the empty page with the empty text the summary is empty.
\<close>

theorem generateSummary_empty_input: "generateSummary [] [] = []"
  by code_simp

text \<open>
  C1 (amended): the summary is empty exactly when the three patterns leave \<open>summary\<close>
  empty and the text has at most 100 bytes; there is no fixed string of last resort.
\<close>

theorem generateSummary_empty_iff:
  "generateSummary html text = [] \<longleftrightarrow>
     try_meta_description html [] = [] \<and> try_og_description html [] = []
       \<and> try_first_paragraph html [] = [] \<and> length text \<le> 100"
proof (cases "try_meta_description html [] = []")
  case m: True
  show ?thesis
  proof (cases "try_og_description html [] = []")
    case og: True
    show ?thesis
    proof (cases "try_first_paragraph html [] = []")
      case True
      with m og show ?thesis
        by (simp add: generateSummary_def truncate_summary_empty fall_back_to_text_empty)
    next
      case False
      with m og show ?thesis
        by (simp add: generateSummary_def truncate_summary_empty fall_back_to_text_id)
    qed
  next
    case False
    with m show ?thesis
      by (simp add: generateSummary_def truncate_summary_empty fall_back_to_text_id
            try_first_paragraph_id)
  qed
next
  case False
  then show ?thesis
    by (simp add: generateSummary_def truncate_summary_empty fall_back_to_text_id
          try_first_paragraph_id try_og_description_id)
qed

text \<open>
  C9: the summary has at most 503 bytes, and a value of more than 500 bytes is cut to its
  first 500 bytes followed by three dots.
\<close>

theorem generateSummary_length:
  "length (generateSummary html text) \<le> 503
   \<and> (length (untruncated html text) > 500
        \<longrightarrow> generateSummary html text = take 500 (untruncated html text) @ ''...'')"
  by (simp add: generateSummary_untruncated truncate_summary_def)

text \<open>
  C9: witness. A paragraph of 167 euro signs has 167 runes and 501 bytes; the cut after
  500 bytes falls inside the last sign.
\<close>

theorem generateSummary_length_witness:
  "length (untruncated euro_paragraph []) = 501
   \<and> generateSummary euro_paragraph [] = take 500 (untruncated euro_paragraph []) @ ''...''
   \<and> length (generateSummary euro_paragraph []) = 503"
proof -
  have l: "length (untruncated euro_paragraph []) = 501"
    by code_simp
  then have "length (untruncated euro_paragraph []) > 500" by simp
  with generateSummary_length [of euro_paragraph "[]"]
  have "generateSummary euro_paragraph [] = take 500 (untruncated euro_paragraph []) @ ''...''"
    by blast
  with l show ?thesis by simp
qed


subsection \<open>The summary is copied from the page\<close>

lemma sublist_trans: "sublist a b \<Longrightarrow> sublist b c \<Longrightarrow> sublist a c"
  by (rule sublist_order.order.trans)

lemma sublist_concat_member: "x \<in> set xs \<Longrightarrow> sublist x (concat xs)"
proof -
  assume "x \<in> set xs"
  then obtain as bs where "xs = as @ x # bs" by (auto dest: split_list)
  then have "concat xs = concat as @ x @ concat bs" by simp
  then show ?thesis unfolding sublist_def by blast
qed

lemma FindStringSubmatch_sublist:
  assumes "length (FindStringSubmatch re g s) > 1" and "g < length re"
  shows "sublist (FindStringSubmatch re g s ! 1) s"
proof (cases "find_match re s")
  case None
  with assms(1) show ?thesis by (simp add: FindStringSubmatch_def)
next
  case (Some r)
  obtain pre chunks rest where r: "r = (pre, chunks, rest)" by (cases r) auto
  have s: "s = pre @ concat chunks @ rest"
    using Some r by (simp add: find_match_concat)
  have "length chunks = length re"
    using find_match_match [of re s pre chunks rest] Some r by (auto dest: match_items_concat)
  with assms(2) have "chunks ! g \<in> set chunks" by simp
  then have "sublist (chunks ! g) (concat chunks)" by (rule sublist_concat_member)
  then obtain as bs where "concat chunks = as @ chunks ! g @ bs"
    unfolding sublist_def by blast
  then have "s = (pre @ as) @ chunks ! g @ (bs @ rest)"
    using s by simp
  then have "sublist (chunks ! g) s"
    unfolding sublist_def by blast
  then show ?thesis
    using Some r by (simp add: FindStringSubmatch_def)
qed

lemma trim_left_suffix: "suffix (trim_left s) s"
proof (induction s rule: trim_left.induct)
  case (1 s)
  show ?case
  proof (cases "s \<noteq> [] \<and> IsSpace (fst (DecodeRuneInString s))")
    case True
    then have "suffix (trim_left (drop (rune_len s) s)) (drop (rune_len s) s)"
      by (intro "1.IH") auto
    then have "suffix (trim_left (drop (rune_len s) s)) s"
      using suffix_drop suffix_order.trans by blast
    with True show ?thesis by (subst trim_left.simps) simp
  next
    case False
    then show ?thesis by (subst trim_left.simps) auto
  qed
qed

lemma trim_right_prefix: "prefix (trim_right s) s"
proof (induction s rule: trim_right.induct)
  case (1 s)
  show ?case
  proof (cases "s \<noteq> [] \<and> IsSpace (fst (DecodeLastRuneInString s))")
    case True
    then have "prefix (trim_right (take (length s - snd (DecodeLastRuneInString s)) s))
        (take (length s - snd (DecodeLastRuneInString s)) s)"
      by (intro "1.IH") auto
    then have "prefix (trim_right (take (length s - snd (DecodeLastRuneInString s)) s)) s"
      using take_is_prefix prefix_order.trans by blast
    with True show ?thesis by (subst trim_right.simps) simp
  next
    case False
    then show ?thesis by (subst trim_right.simps) auto
  qed
qed

lemma TrimSpace_sublist: "sublist (TrimSpace s) s"
proof -
  have "sublist (trim_right (trim_left s)) (trim_left s)"
    using trim_right_prefix by (rule prefix_imp_sublist)
  moreover have "sublist (trim_left s) s"
    using trim_left_suffix by (rule suffix_imp_sublist)
  ultimately show ?thesis
    unfolding TrimSpace_def by (rule sublist_trans)
qed

text \<open>A text without \<open><\<close> has no tag to replace.\<close>

lemma match_re_tag_hd:
  "match_items re_tag 0 s = Some r \<Longrightarrow> s \<noteq> [] \<and> hd s = CHR ''<''"
proof -
  assume m: "match_items re_tag 0 s = Some r"
  obtain chunks rest where r: "r = (chunks, rest)" by (cases r) auto
  from m have "s \<noteq> []" and "take (rune_len s) s = ''<''"
    unfolding r re_tag_def lit_def by (auto simp: match_Chr_Some)
  then show ?thesis
    using rune_hd [of s] by simp
qed

lemma find_match_re_tag_None: "CHR ''<'' \<notin> set s \<Longrightarrow> find_match re_tag s = None"
proof (induction "re_tag" s rule: find_match.induct)
  case (1 s)
  have m: "match_items re_tag 0 s = None"
  proof (cases "match_items re_tag 0 s")
    case (Some r)
    then have "s \<noteq> [] \<and> hd s = CHR ''<''" by (rule match_re_tag_hd)
    with "1.prems" show ?thesis by (cases s) auto
  qed simp
  show ?case
  proof (cases "s = []")
    case True
    with m show ?thesis by (subst find_match_None) simp
  next
    case False
    have "CHR ''<'' \<notin> set (drop (rune_len s) s)"
      using "1.prems" by (auto dest: in_set_dropD)
    with "1.hyps" [OF m False] m False show ?thesis
      by (subst find_match_None) simp
  qed
qed

lemma not_lt_bytes:
  assumes "t \<noteq> []" and "not_lt (take (rune_len t) t)"
  shows "\<forall>b \<in> set (take (rune_len t) t). b \<noteq> CHR ''<''"
proof -
  obtain c cs where t: "t = c # cs" using assms(1) by (cases t) auto
  from rune_cases [of c cs] show ?thesis
  proof
    assume "take (rune_len (c # cs)) (c # cs) = [c]"
    with assms(2) show ?thesis unfolding t by (auto simp: not_lt_def)
  next
    assume "\<forall>b \<in> set (take (rune_len (c # cs)) (c # cs)). 0x80 \<le> (of_char b :: int)"
    then show ?thesis unfolding t by auto
  qed
qed

lemma paragraph_capture_no_lt:
  assumes "length (FindStringSubmatch re_paragraph paragraph_group s) > 1"
  shows "CHR ''<'' \<notin> set (FindStringSubmatch re_paragraph paragraph_group s ! 1)"
proof (cases "find_match re_paragraph s")
  case None
  with assms show ?thesis by (simp add: FindStringSubmatch_def)
next
  case (Some r)
  obtain pre chunks rest where r: "r = (pre, chunks, rest)" by (cases r) auto
  have m: "match_items re_paragraph 0 (concat chunks @ rest) = Some (chunks, rest)"
    using Some r by (simp add: find_match_match)
  have g: "paragraph_group < length re_paragraph"
    and i: "re_paragraph ! paragraph_group = Rep not_lt 50 (Some 500) True"
    by (simp_all add: re_paragraph_def paragraph_group_def lit_i_def lit_def)
  have "\<forall>b \<in> set (chunks ! paragraph_group). b \<noteq> CHR ''<''"
    using m g i not_lt_bytes by (rule match_items_Rep_chunk)
  then show ?thesis
    using Some r by (auto simp: FindStringSubmatch_def)
qed

lemma meta_group_less: "meta_group attr val < length (re_meta attr val)"
  by (simp add: meta_group_def re_meta_def)

lemma try_meta_description_sublist:
  "sublist (try_meta_description html summary) html \<or> try_meta_description html summary = summary"
  using FindStringSubmatch_sublist [OF _ meta_group_less, of "''name''" "''description''" html]
    TrimSpace_sublist sublist_trans
  by (fastforce simp: try_meta_description_def Let_def)

lemma try_og_description_sublist:
  "sublist (try_og_description html summary) html \<or> try_og_description html summary = summary"
  using FindStringSubmatch_sublist [OF _ meta_group_less, of "''property''" "''og:description''" html]
    TrimSpace_sublist sublist_trans
  by (fastforce simp: try_og_description_def Let_def)

lemma try_first_paragraph_sublist:
  "sublist (try_first_paragraph html summary) html \<or> try_first_paragraph html summary = summary"
proof (cases "summary = [] \<and> length (FindStringSubmatch re_paragraph paragraph_group html) > 1")
  case True
  let ?c = "FindStringSubmatch re_paragraph paragraph_group html ! 1"
  from True have len: "length (FindStringSubmatch re_paragraph paragraph_group html) > 1"
    by blast
  have "CHR ''<'' \<notin> set ?c"
    by (rule paragraph_capture_no_lt [OF len])
  then have "ReplaceAllString re_tag ?c [] = ?c"
    by (simp add: find_match_re_tag_None ReplaceAllString_None)
  moreover have "sublist ?c html"
    by (rule FindStringSubmatch_sublist [OF len])
       (simp add: paragraph_group_def re_paragraph_def lit_i_def lit_def)
  then have "sublist (TrimSpace ?c) html"
    using TrimSpace_sublist sublist_trans by blast
  ultimately show ?thesis
    using True by (simp add: try_first_paragraph_def Let_def)
next
  case False
  then show ?thesis by (auto simp: try_first_paragraph_def Let_def)
qed

lemma fall_back_to_text_sublist:
  "sublist (fall_back_to_text text summary) text \<or> fall_back_to_text text summary = summary"
proof -
  have "sublist (take n (take m text)) text" for n m
    by (metis prefix_imp_sublist take_is_prefix sublist_trans)
  moreover have "sublist (take m text) text" for m
    by (simp add: prefix_imp_sublist take_is_prefix)
  ultimately show ?thesis
    by (simp add: fall_back_to_text_def Let_def)
qed

lemma untruncated_sublist:
  "sublist (untruncated html text) html \<or> sublist (untruncated html text) text"
proof -
  let ?a = "try_meta_description html []"
  let ?b = "try_og_description html ?a"
  let ?c = "try_first_paragraph html ?b"
  let ?d = "fall_back_to_text text ?c"
  have a: "sublist ?a html" using try_meta_description_sublist [of html "[]"] by auto
  have b: "sublist ?b html" using try_og_description_sublist [of html ?a] a by auto
  have c: "sublist ?c html" using try_first_paragraph_sublist [of html ?b] b by auto
  have "sublist ?d text \<or> sublist ?d html"
    using fall_back_to_text_sublist [of "text" ?c] c by auto
  then show ?thesis by (auto simp: untruncated_def)
qed

text \<open>Three dots at the end add no occurrence of a string without a dot.\<close>

lemma sublist_append_dots:
  assumes "sublist m (c @ ''...'')" and "CHR ''.'' \<notin> set m"
  shows "sublist m c"
proof -
  from assms(1) consider "sublist m c" | "sublist m ''...''"
    | xs1 xs2 where "m = xs1 @ xs2" "suffix xs1 c" "prefix xs2 ''...''"
    unfolding sublist_append by blast
  then show ?thesis
  proof cases
    case 1
    then show ?thesis .
  next
    case 2
    then have "set m \<subseteq> set ''...''" by (rule set_mono_sublist)
    with assms(2) have "m = []" by (cases m) auto
    then show ?thesis by simp
  next
    case 3
    from 3(3) have "set xs2 \<subseteq> set ''...''" by (rule set_mono_prefix)
    with assms(2) 3(1) have "xs2 = []" by (cases xs2) auto
    with 3 show ?thesis by (simp add: suffix_imp_sublist)
  qed
qed

lemma generateSummary_marker:
  assumes "CHR ''.'' \<notin> set m" and "\<not> Contains html m" and "\<not> Contains text m"
  shows "\<not> Contains (generateSummary html text) m"
proof
  assume c: "Contains (generateSummary html text) m"
  have u: "\<not> sublist m (untruncated html text)"
    using untruncated_sublist [of html "text"] assms(2,3) sublist_trans
    unfolding Contains_def by blast
  then have t: "\<not> sublist m (take 500 (untruncated html text))"
    using sublist_trans prefix_imp_sublist take_is_prefix by blast
  from c have "sublist m (untruncated html text)
      \<or> sublist m (take 500 (untruncated html text) @ ''...'')"
    by (auto simp: Contains_def generateSummary_untruncated truncate_summary_def split: if_splits)
  with u t assms(1) show False
    using sublist_append_dots by blast
qed

text \<open>
  C2 (as stated, refuted): a meta description that reads \<open>function\<close> is returned as the
  summary.
\<close>

theorem generateSummary_returns_marker:
  "generateSummary function_page [] = ''function''
   \<and> Contains (generateSummary function_page []) ''function''"
proof -
  have "generateSummary function_page [] = ''function''"
    by code_simp
  moreover have "Contains ''function'' ''function''"
    by (simp add: Contains_def)
  ultimately show ?thesis by simp
qed

text \<open>
  C2 (amended): generateSummary has no denylist and never discards or rebuilds a summary.
  What it returns is a contiguous piece of html or of text, as it is or, when the piece
  has more than 500 bytes, cut and followed by three dots. So the summary contains
  \<open>function\<close> only if html or text contains \<open>function\<close>, and it contains \<open>window.\<close>
  only if html or text contains \<open>window\<close>.
\<close>

theorem generateSummary_copies_page:
  "(\<exists>c. (generateSummary html text = c \<or> generateSummary html text = c @ ''...'')
        \<and> (Contains html c \<or> Contains text c))
   \<and> (\<not> Contains html ''function'' \<and> \<not> Contains text ''function''
        \<longrightarrow> \<not> Contains (generateSummary html text) ''function'')
   \<and> (\<not> Contains html ''window'' \<and> \<not> Contains text ''window''
        \<longrightarrow> \<not> Contains (generateSummary html text) ''window.'')"
proof (intro conjI impI)
  let ?u = "untruncated html text"
  have u: "sublist ?u html \<or> sublist ?u text"
    by (rule untruncated_sublist)
  have t: "sublist (take 500 ?u) ?u"
    by (simp add: prefix_imp_sublist take_is_prefix)
  show "\<exists>c. (generateSummary html text = c \<or> generateSummary html text = c @ ''...'')
        \<and> (Contains html c \<or> Contains text c)"
  proof (cases "length ?u > 500")
    case True
    then have "generateSummary html text = take 500 ?u @ ''...''"
      by (simp add: generateSummary_untruncated truncate_summary_def)
    moreover have "Contains html (take 500 ?u) \<or> Contains text (take 500 ?u)"
      using u t sublist_trans unfolding Contains_def by blast
    ultimately show ?thesis by blast
  next
    case False
    then have "generateSummary html text = ?u"
      by (simp add: generateSummary_untruncated truncate_summary_def)
    with u show ?thesis unfolding Contains_def by blast
  qed
next
  assume "\<not> Contains html ''function'' \<and> \<not> Contains text ''function''"
  then show "\<not> Contains (generateSummary html text) ''function''"
    by (intro generateSummary_marker) simp_all
next
  assume a: "\<not> Contains html ''window'' \<and> \<not> Contains text ''window''"
  then have n: "\<not> Contains (generateSummary html text) ''window''"
    by (intro generateSummary_marker) simp_all
  have "sublist ''window'' ''window.''"
    by (simp add: prefix_imp_sublist)
  then show "\<not> Contains (generateSummary html text) ''window.''"
    using n sublist_trans unfolding Contains_def by blast
qed

text \<open>C2: witness, on the page of the spec's scenario A.\<close>

theorem generateSummary_copies_page_witness:
  "\<not> Contains article_page ''function'' \<and> \<not> Contains ''Test Page'' ''function''
   \<and> \<not> Contains article_page ''window'' \<and> \<not> Contains ''Test Page'' ''window''
   \<and> generateSummary article_page ''Test Page'' = ''A great article about testing.''
   \<and> Contains article_page ''A great article about testing.''
   \<and> \<not> Contains (generateSummary article_page ''Test Page'') ''function''
   \<and> \<not> Contains (generateSummary article_page ''Test Page'') ''window.''"
proof -
  have h: "\<not> Contains article_page ''function''" "\<not> Contains ''Test Page'' ''function''"
    "\<not> Contains article_page ''window''" "\<not> Contains ''Test Page'' ''window''"
    by code_simp+
  have g: "generateSummary article_page ''Test Page'' = ''A great article about testing.''"
    by code_simp
  have c: "Contains article_page ''A great article about testing.''"
    by code_simp
  show ?thesis
    using generateSummary_copies_page [of article_page "''Test Page''"] h g c
    by simp
qed

subsection \<open>extractKeywords\<close>

lemma increment_keys: "fst ` set (increment w m) = insert w (fst ` set m)"
  by (induction w m rule: increment.induct) auto

lemma increment_distinct: "distinct (map fst m) \<Longrightarrow> distinct (map fst (increment w m))"
proof (induction w m rule: increment.induct)
  case (1 w)
  then show ?case by simp
next
  case (2 w k c m)
  then show ?case
    using increment_keys [of w m] by (auto simp: image_iff)
qed

definition keyword_ok :: "string \<Rightarrow> bool" where
  "keyword_ok w \<longleftrightarrow> 3 \<le> length w \<and> length w \<le> 30 \<and> w \<notin> set stopWords"

lemma count_loop_keys:
  "\<forall>k \<in> fst ` set m. keyword_ok k \<Longrightarrow> \<forall>k \<in> fst ` set (count_loop rt ws m). keyword_ok k"
proof (induction rt ws m rule: count_loop.induct)
  case (1 rt m)
  then show ?case by simp
next
  case (2 rt word0 words m)
  show ?case
  proof (cases "length (TrimSpace word0) < 3 \<or> length (TrimSpace word0) > 30
      \<or> TrimSpace word0 \<in> set stopWords
      \<or> length (filter (\<lambda>(r, bytes). IsNumber rt r) (range_string (TrimSpace word0)))
           > length (TrimSpace word0) div 2")
    case True
    then have "count_loop rt (word0 # words) m = count_loop rt words m"
      by (auto simp: Let_def)
    moreover have "\<forall>k \<in> fst ` set (count_loop rt words m). keyword_ok k"
      using True "2.IH"(1,2,3) "2.prems" by (auto simp: Let_def)
    ultimately show ?thesis by simp
  next
    case False
    then have eq: "count_loop rt (word0 # words) m
        = count_loop rt words (increment (TrimSpace word0) m)"
      by (auto simp: Let_def)
    have "keyword_ok (TrimSpace word0)"
      using False by (auto simp: keyword_ok_def)
    then have "\<forall>k \<in> fst ` set (increment (TrimSpace word0) m). keyword_ok k"
      using "2.prems" by (simp add: increment_keys)
    then have "\<forall>k \<in> fst ` set (count_loop rt words (increment (TrimSpace word0) m)). keyword_ok k"
      using False by (intro "2.IH"(4)) (auto simp: Let_def)
    with eq show ?thesis by simp
  qed
qed

lemma count_loop_distinct:
  "distinct (map fst m) \<Longrightarrow> distinct (map fst (count_loop rt ws m))"
proof (induction rt ws m rule: count_loop.induct)
  case (1 rt m)
  then show ?case by simp
next
  case (2 rt word0 words m)
  show ?case
  proof (cases "length (TrimSpace word0) < 3 \<or> length (TrimSpace word0) > 30
      \<or> TrimSpace word0 \<in> set stopWords
      \<or> length (filter (\<lambda>(r, bytes). IsNumber rt r) (range_string (TrimSpace word0)))
           > length (TrimSpace word0) div 2")
    case True
    then have "count_loop rt (word0 # words) m = count_loop rt words m"
      by (auto simp: Let_def)
    moreover have "distinct (map fst (count_loop rt words m))"
      using True "2.IH"(1,2,3) "2.prems" by (auto simp: Let_def)
    ultimately show ?thesis by simp
  next
    case False
    then have eq: "count_loop rt (word0 # words) m
        = count_loop rt words (increment (TrimSpace word0) m)"
      by (auto simp: Let_def)
    have "distinct (map fst (increment (TrimSpace word0) m))"
      using "2.prems" by (rule increment_distinct)
    then have "distinct (map fst (count_loop rt words (increment (TrimSpace word0) m)))"
      using False by (intro "2.IH"(4)) (auto simp: Let_def)
    with eq show ?thesis by simp
  qed
qed

lemma wordCounts_keys: "\<forall>k \<in> fst ` set (wordCounts rt text). keyword_ok k"
  unfolding wordCounts_def by (rule count_loop_keys) simp

lemma wordCounts_distinct: "distinct (map fst (wordCounts rt text))"
  unfolding wordCounts_def by (rule count_loop_distinct) simp

text \<open>The slice \<open>freqs\<close> before and after the sort.\<close>

definition candidates :: "runtime \<Rightarrow> string \<Rightarrow> wordFreq list" where
  "candidates rt text = filter (\<lambda>(word, count). count \<ge> 2) (map_range rt (wordCounts rt text))"

definition ranked :: "runtime \<Rightarrow> string \<Rightarrow> wordFreq list" where
  "ranked rt text = sort_Slice rt by_count (candidates rt text)"

lemma extractKeywords_ranked: "extractKeywords rt text = map fst (take 15 (ranked rt text))"
  by (simp add: extractKeywords_def ranked_def candidates_def)

lemma mset_ranked:
  assumes "runtime_ok rt"
  shows "mset (ranked rt text) = filter_mset (\<lambda>(word, count). count \<ge> 2) (mset (wordCounts rt text))"
  using assms by (simp add: ranked_def candidates_def runtime_ok_def)

lemma set_ranked:
  assumes "runtime_ok rt"
  shows "set (ranked rt text) \<subseteq> set (wordCounts rt text)"
proof -
  have "set_mset (mset (ranked rt text)) \<subseteq> set_mset (mset (wordCounts rt text))"
    unfolding mset_ranked [OF assms] by auto
  then show ?thesis by simp
qed

lemma distinct_ranked:
  assumes "runtime_ok rt"
  shows "distinct (map fst (ranked rt text))"
proof -
  have "mset (map fst (ranked rt text))
      = image_mset fst (filter_mset (\<lambda>(word, count). count \<ge> 2) (mset (wordCounts rt text)))"
    using mset_ranked [OF assms, of "text"] by (metis mset_map)
  also have "\<dots> = mset (map fst (filter (\<lambda>(word, count). count \<ge> 2) (wordCounts rt text)))"
    by simp
  finally have "distinct (map fst (ranked rt text))
      \<longleftrightarrow> distinct (map fst (filter (\<lambda>(word, count). count \<ge> 2) (wordCounts rt text)))"
    by (rule mset_eq_imp_distinct_iff)
  then show ?thesis
    using wordCounts_distinct [of rt "text"] by (simp add: distinct_map_filter)
qed

text \<open>
  C3 (amended): whatever the order of the map iteration and the sorting algorithm,
  extractKeywords returns at most 15 entries, no entry twice, every entry between 3 and
  30 bytes long, and no entry from the stop-word set. (The code skips a word of more than
  30 bytes, not of more than 25.)
\<close>

theorem extractKeywords_bounds:
  assumes "runtime_ok rt"
  shows "length (extractKeywords rt text) \<le> 15
    \<and> distinct (extractKeywords rt text)
    \<and> (\<forall>k \<in> set (extractKeywords rt text).
          3 \<le> length k \<and> length k \<le> 30 \<and> k \<notin> set stopWords)"
proof (intro conjI ballI)
  show "length (extractKeywords rt text) \<le> 15"
    by (simp add: extractKeywords_ranked)
next
  have "distinct (map fst (ranked rt text))"
    using assms by (rule distinct_ranked)
  then show "distinct (extractKeywords rt text)"
    unfolding extractKeywords_ranked take_map [symmetric] by (rule distinct_take)
next
  fix k assume "k \<in> set (extractKeywords rt text)"
  then have "k \<in> fst ` set (ranked rt text)"
    unfolding extractKeywords_ranked by (auto dest: in_set_takeD)
  then have "k \<in> fst ` set (wordCounts rt text)"
    using set_ranked [OF assms, of "text"] by auto
  then have "keyword_ok k"
    using wordCounts_keys by blast
  then show "3 \<le> length k" "length k \<le> 30" "k \<notin> set stopWords"
    by (simp_all add: keyword_ok_def)
qed

lemma mset_insert_back: "mset (insert_back lt x ys) = add_mset x (mset ys)"
  by (induction ys) auto

lemma mset_foldl_insert_back:
  "mset (foldl (\<lambda>acc x. insert_back lt x acc) acc xs) = mset acc + mset xs"
  by (induction xs arbitrary: acc) (auto simp: mset_insert_back)

lemma mset_insertionSort: "mset (insertionSort lt xs) = mset xs"
  by (simp add: insertionSort_def mset_foldl_insert_back)

lemma set_insert_back: "set (insert_back lt x ys) = insert x (set ys)"
  by (induction ys) auto

lemma sorted_insert_back:
  "sorted_wrt (\<lambda>a b. snd a \<le> snd b) ys
     \<Longrightarrow> sorted_wrt (\<lambda>a b. snd a \<le> snd b) (insert_back by_count (x :: wordFreq) ys)"
proof (induction ys)
  case Nil
  then show ?case by simp
next
  case (Cons y ys)
  then show ?case
    by (auto simp: by_count_def set_insert_back)
qed

lemma sorted_foldl_insert_back:
  "sorted_wrt (\<lambda>a b. snd a \<le> snd b) acc
     \<Longrightarrow> sorted_wrt (\<lambda>a b. snd a \<le> snd b)
           (foldl (\<lambda>acc x. insert_back by_count x acc) acc (xs :: wordFreq list))"
  by (induction xs arbitrary: acc) (auto simp: sorted_insert_back)

lemma sorted_insertionSort:
  "sorted_wrt (\<lambda>a b. \<not> by_count b a) (insertionSort by_count (xs :: wordFreq list))"
proof -
  have "sorted_wrt (\<lambda>a b. snd a \<le> snd b) (foldl (\<lambda>acc x. insert_back by_count x acc) [] xs)"
    by (rule sorted_foldl_insert_back) simp
  then have "sorted_wrt (\<lambda>a b. snd b \<le> snd a) (insertionSort by_count xs)"
    by (simp add: insertionSort_def sorted_wrt_rev)
  then show ?thesis
    by (simp add: by_count_def not_less)
qed

lemma runtime_ok_ascii:
  assumes "\<And>m. mset (order m) = mset m"
  shows "runtime_ok (ascii_runtime order)"
  using assms by (simp add: runtime_ok_def ascii_runtime_def mset_insertionSort sorted_insertionSort)

lemma runtime_ok_ascii_id: "runtime_ok (ascii_runtime id)"
  by (rule runtime_ok_ascii) simp

lemma runtime_ok_ascii_rev: "runtime_ok (ascii_runtime rev)"
  by (rule runtime_ok_ascii) simp

text \<open>C3: witness, on the text of the spec's scenario B.\<close>

theorem extractKeywords_bounds_witness:
  "runtime_ok (ascii_runtime id)
   \<and> extractKeywords (ascii_runtime id) ''cats cats cats dogs dogs birds'' = [''cats'', ''dogs'']
   \<and> length (extractKeywords (ascii_runtime id) ''cats cats cats dogs dogs birds'') \<le> 15
   \<and> distinct (extractKeywords (ascii_runtime id) ''cats cats cats dogs dogs birds'')
   \<and> list_all (\<lambda>k. 3 \<le> length k \<and> length k \<le> 30 \<and> k \<notin> set stopWords)
         (extractKeywords (ascii_runtime id) ''cats cats cats dogs dogs birds'')"
proof -
  have e: "extractKeywords (ascii_runtime id) ''cats cats cats dogs dogs birds'' = [''cats'', ''dogs'']"
    by code_simp
  show ?thesis
    using extractKeywords_bounds [OF runtime_ok_ascii_id, of "''cats cats cats dogs dogs birds''"]
      runtime_ok_ascii_id e
    by (simp add: list_all_iff)
qed

text \<open>
  C3 (as stated, refuted): a word of 26 letters that occurs twice is returned as a keyword.
\<close>

theorem extractKeywords_length_26:
  "\<not> (length (extractKeywords (ascii_runtime id)
            ''abcdefghijklmnopqrstuvwxyz abcdefghijklmnopqrstuvwxyz'') \<le> 15
      \<and> distinct (extractKeywords (ascii_runtime id)
            ''abcdefghijklmnopqrstuvwxyz abcdefghijklmnopqrstuvwxyz'')
      \<and> (\<forall>k \<in> set (extractKeywords (ascii_runtime id)
            ''abcdefghijklmnopqrstuvwxyz abcdefghijklmnopqrstuvwxyz'').
            3 \<le> length k \<and> length k \<le> 25 \<and> k \<notin> set stopWords))"
proof -
  have "extractKeywords (ascii_runtime id)
      ''abcdefghijklmnopqrstuvwxyz abcdefghijklmnopqrstuvwxyz'' = [''abcdefghijklmnopqrstuvwxyz'']"
    by code_simp
  then show ?thesis by simp
qed

subsection \<open>Determinism\<close>

lemma count_loop_cong:
  "IsNumber rt1 = IsNumber rt2 \<Longrightarrow> count_loop rt1 ws m = count_loop rt2 ws m"
  by (induction rt1 ws m rule: count_loop.induct) (simp add: Let_def)+

lemma wordCounts_cong:
  assumes "ToLower rt1 = ToLower rt2" "IsLetter rt1 = IsLetter rt2" "IsNumber rt1 = IsNumber rt2"
  shows "wordCounts rt1 text = wordCounts rt2 text"
  using assms count_loop_cong [OF assms(3)] by (simp add: wordCounts_def)

lemma sorted_ranked:
  assumes "runtime_ok rt"
  shows "sorted_wrt (\<lambda>a b. snd b \<le> snd a) (ranked rt text)"
proof -
  have "sorted_wrt (\<lambda>a b. \<not> by_count b a) (ranked rt text)"
    using assms by (simp add: ranked_def runtime_ok_def)
  then show ?thesis by (simp add: by_count_def not_less)
qed

lemma counts_ranked_eq:
  assumes ok1: "runtime_ok rt1" and ok2: "runtime_ok rt2"
    and wc: "wordCounts rt1 text = wordCounts rt2 text"
  shows "map snd (ranked rt1 text) = map snd (ranked rt2 text)"
proof -
  let ?a = "rev (map snd (ranked rt1 text))" and ?b = "rev (map snd (ranked rt2 text))"
  have "mset (ranked rt1 text) = mset (ranked rt2 text)"
    by (simp add: mset_ranked [OF ok1] mset_ranked [OF ok2] wc)
  then have m: "mset ?a = mset ?b"
    by (metis mset_map mset_rev)
  have s: "sorted ?a" "sorted ?b"
    using sorted_ranked [OF ok1, of "text"] sorted_ranked [OF ok2, of "text"]
    by (simp_all add: sorted_wrt_rev sorted_wrt_map rev_map [symmetric] del: rev_map)
  have "?a = sort ?b"
    using m s(1) by (metis properties_for_sort)
  also have "\<dots> = ?b"
    using s(2) by (simp add: sorted_sort_id)
  finally show ?thesis by simp
qed

text \<open>The count of a word in the map (0 for a word that is not a key).\<close>

definition count_of :: "wordFreq list \<Rightarrow> string \<Rightarrow> nat" where
  "count_of m w = (case map_of m w of Some c \<Rightarrow> c | None \<Rightarrow> 0)"

lemma count_of_ranked:
  assumes "runtime_ok rt" and "p \<in> set (ranked rt text)"
  shows "count_of (wordCounts rt text) (fst p) = snd p"
proof -
  have "(fst p, snd p) \<in> set (wordCounts rt text)"
    using assms set_ranked by auto
  with wordCounts_distinct [of rt "text"]
  have "map_of (wordCounts rt text) (fst p) = Some (snd p)"
    by (rule map_of_is_SomeI)
  then show ?thesis by (simp add: count_of_def)
qed

lemma counts_of_keywords:
  assumes "runtime_ok rt"
  shows "map (count_of (wordCounts rt text)) (extractKeywords rt text)
    = take 15 (map snd (ranked rt text))"
proof -
  have "map (count_of (wordCounts rt text) \<circ> fst) (take 15 (ranked rt text))
      = map snd (take 15 (ranked rt text))"
    using count_of_ranked [OF assms] by (auto dest: in_set_takeD)
  then show ?thesis
    by (simp add: extractKeywords_ranked take_map)
qed

lemma length_ranked:
  assumes "runtime_ok rt"
  shows "length (ranked rt text)
    = length (filter (\<lambda>(word, count). count \<ge> 2) (wordCounts rt text))"
proof -
  have "mset (ranked rt text)
      = mset (filter (\<lambda>(word, count). count \<ge> 2) (wordCounts rt text))"
    using mset_ranked [OF assms, of "text"] by simp
  then show ?thesis by (rule mset_eq_length)
qed

lemma keywords_tie_at_cut:
  assumes ok1: "runtime_ok rt1" and ok2: "runtime_ok rt2"
    and wc: "wordCounts rt1 text = wordCounts rt2 text"
    and w1: "w \<in> set (extractKeywords rt1 text)" and w2: "w \<notin> set (extractKeywords rt2 text)"
  shows "length (extractKeywords rt2 text) = 15
    \<and> count_of (wordCounts rt1 text) w
        = count_of (wordCounts rt1 text) (last (extractKeywords rt2 text))"
proof -
  let ?r1 = "ranked rt1 text" and ?r2 = "ranked rt2 text"
  have c: "map snd ?r1 = map snd ?r2"
    using ok1 ok2 wc by (rule counts_ranked_eq)
  then have len: "length ?r1 = length ?r2"
    by (rule map_eq_imp_length_eq)
  have ms: "mset ?r1 = mset ?r2"
    by (simp add: mset_ranked [OF ok1] mset_ranked [OF ok2] wc)
  from w1 obtain p where p: "p \<in> set (take 15 ?r1)" and w: "w = fst p"
    by (auto simp: extractKeywords_ranked)
  then obtain i where i: "i < 15" "i < length ?r1" "p = ?r1 ! i"
    by (auto simp: in_set_conv_nth)
  have "p \<in> set ?r1" using p by (rule in_set_takeD)
  then have "p \<in> set ?r2" using ms by (metis set_mset_mset)
  moreover have "p \<notin> set (take 15 ?r2)"
    using w2 w by (auto simp: extractKeywords_ranked)
  ultimately have pd: "p \<in> set (drop 15 ?r2)"
    by (metis Un_iff append_take_drop_id set_append)
  then have long: "15 < length ?r2" by (cases "15 < length ?r2") auto
  then have l15: "length (take 15 ?r2) = 15" by simp
  then have ne: "take 15 ?r2 \<noteq> []" by auto
  let ?q = "last (take 15 ?r2)"
  have "?q = take 15 ?r2 ! (length (take 15 ?r2) - 1)"
    using ne by (rule last_conv_nth)
  also have "\<dots> = take 15 ?r2 ! 14"
    unfolding l15 by simp
  also have "\<dots> = ?r2 ! 14"
    by simp
  finally have q: "?q = ?r2 ! 14" .
  have "sorted_wrt (\<lambda>a b. snd b \<le> snd a) (take 15 ?r2 @ drop 15 ?r2)"
    using sorted_ranked [OF ok2, of "text"] by simp
  then have "\<forall>x \<in> set (take 15 ?r2). \<forall>y \<in> set (drop 15 ?r2). snd y \<le> snd x"
    unfolding sorted_wrt_append by blast
  with pd ne have le: "snd p \<le> snd ?q" by (meson last_in_set)
  have l14: "14 < length ?r1" "14 < length ?r2"
    using long len by simp_all
  have "snd (?r1 ! 14) = map snd ?r1 ! 14"
    using l14(1) by simp
  also have "\<dots> = map snd ?r2 ! 14"
    by (simp only: c)
  also have "\<dots> = snd (?r2 ! 14)"
    using l14(2) by simp
  finally have "snd (?r1 ! 14) = snd (?r2 ! 14)" .
  moreover have "snd (?r1 ! 14) \<le> snd (?r1 ! i)"
  proof (cases "i = 14")
    case True
    then show ?thesis by simp
  next
    case False
    with i(1) have "i < 14" by simp
    then show ?thesis
      using l14(1) sorted_ranked [OF ok1, of "text"] by (simp add: sorted_wrt_iff_nth_less)
  qed
  ultimately have ge: "snd ?q \<le> snd p"
    using q i(3) by simp
  have "?q \<in> set ?r2" using ne by (meson last_in_set in_set_takeD)
  then have cq: "count_of (wordCounts rt2 text) (fst ?q) = snd ?q"
    using ok2 by (intro count_of_ranked)
  have cp: "count_of (wordCounts rt1 text) (fst p) = snd p"
    using ok1 \<open>p \<in> set ?r1\<close> by (intro count_of_ranked)
  have "last (extractKeywords rt2 text) = fst ?q"
    using ne by (simp add: extractKeywords_ranked last_map)
  with cq cp le ge w wc l15 show ?thesis
    by (simp add: extractKeywords_ranked)
qed

text \<open>
  C4 (amended): two runs on the same text, with any two map iteration orders and sorting
  algorithms, return lists of the same length with the same counts position by position.
  The lists are equal when no two words that occur at least twice have the same count;
  they hold the same keywords when at most 15 words occur at least twice; and a keyword
  that one run returns and the other does not has the count of the last keyword of the
  other run, which then returns 15. Words with equal counts come out in the order the
  map iteration and the sort leave them in; the code keeps no first-occurrence index.
\<close>

theorem extractKeywords_deterministic_up_to_ties:
  assumes "runtime_ok rt1" and "runtime_ok rt2"
    and "ToLower rt1 = ToLower rt2" and "IsLetter rt1 = IsLetter rt2"
    and "IsNumber rt1 = IsNumber rt2"
  shows "map (count_of (wordCounts rt1 text)) (extractKeywords rt1 text)
      = map (count_of (wordCounts rt2 text)) (extractKeywords rt2 text)
    \<and> (distinct (map snd (filter (\<lambda>(word, count). count \<ge> 2) (wordCounts rt1 text)))
        \<longrightarrow> extractKeywords rt1 text = extractKeywords rt2 text)
    \<and> (length (filter (\<lambda>(word, count). count \<ge> 2) (wordCounts rt1 text)) \<le> 15
        \<longrightarrow> mset (extractKeywords rt1 text) = mset (extractKeywords rt2 text))
    \<and> (\<forall>w \<in> set (extractKeywords rt1 text). w \<notin> set (extractKeywords rt2 text)
        \<longrightarrow> length (extractKeywords rt2 text) = 15
            \<and> count_of (wordCounts rt1 text) w
                = count_of (wordCounts rt1 text) (last (extractKeywords rt2 text)))"
proof (intro conjI impI ballI)
  have wc: "wordCounts rt1 text = wordCounts rt2 text"
    using assms(3-5) by (rule wordCounts_cong)
  have c: "map snd (ranked rt1 text) = map snd (ranked rt2 text)"
    using assms(1,2) wc by (rule counts_ranked_eq)
  have ms: "mset (ranked rt1 text) = mset (ranked rt2 text)"
    by (simp add: mset_ranked [OF assms(1)] mset_ranked [OF assms(2)] wc)
  show "map (count_of (wordCounts rt1 text)) (extractKeywords rt1 text)
      = map (count_of (wordCounts rt2 text)) (extractKeywords rt2 text)"
    by (simp add: counts_of_keywords [OF assms(1)] counts_of_keywords [OF assms(2)] c)
  {
    assume d: "distinct (map snd (filter (\<lambda>(word, count). count \<ge> 2) (wordCounts rt1 text)))"
    let ?C = "filter (\<lambda>(word, count). count \<ge> 2) (wordCounts rt1 text)"
    have s1: "set (ranked rt1 text) = set ?C"
      using mset_ranked [OF assms(1), of "text"] by (metis mset_filter set_mset_mset)
    have s2: "set (ranked rt2 text) = set ?C"
      using mset_ranked [OF assms(2), of "text"] wc by (metis mset_filter set_mset_mset)
    have "inj_on snd (set ?C)"
      using d by (simp add: distinct_map)
    then have "inj_on snd (set (ranked rt1 text) \<union> set (ranked rt2 text))"
      by (simp add: s1 s2)
    with c have "ranked rt1 text = ranked rt2 text"
      by (rule map_inj_on)
    then show "extractKeywords rt1 text = extractKeywords rt2 text"
      by (simp add: extractKeywords_ranked)
  }
  {
    assume l: "length (filter (\<lambda>(word, count). count \<ge> 2) (wordCounts rt1 text)) \<le> 15"
    then have "take 15 (ranked rt1 text) = ranked rt1 text"
      and "take 15 (ranked rt2 text) = ranked rt2 text"
      using length_ranked [OF assms(1), of "text"] length_ranked [OF assms(2), of "text"] wc
      by simp_all
    moreover have "mset (map fst (ranked rt1 text)) = mset (map fst (ranked rt2 text))"
      using ms by (metis mset_map)
    ultimately show "mset (extractKeywords rt1 text) = mset (extractKeywords rt2 text)"
      by (simp add: extractKeywords_ranked)
  }
  {
    fix w
    assume "w \<in> set (extractKeywords rt1 text)" and "w \<notin> set (extractKeywords rt2 text)"
    with assms(1,2) wc
    have r: "length (extractKeywords rt2 text) = 15
      \<and> count_of (wordCounts rt1 text) w
          = count_of (wordCounts rt1 text) (last (extractKeywords rt2 text))"
      by (rule keywords_tie_at_cut)
    from r show "length (extractKeywords rt2 text) = 15" ..
    from r show "count_of (wordCounts rt1 text) w
          = count_of (wordCounts rt1 text) (last (extractKeywords rt2 text))" ..
  }
qed

text \<open>
  C4: witness, with the map read in the order of insertion and in the reverse order: a
  text without ties, a text with a tie, and sixteen words tied at the cut.
\<close>

theorem extractKeywords_deterministic_up_to_ties_witness:
  "runtime_ok (ascii_runtime id) \<and> runtime_ok (ascii_runtime rev)
   \<and> distinct (map snd (filter (\<lambda>(word, count). count \<ge> 2)
        (wordCounts (ascii_runtime id) ''cats cats cats dogs dogs birds'')))
   \<and> extractKeywords (ascii_runtime id) ''cats cats cats dogs dogs birds''
      = extractKeywords (ascii_runtime rev) ''cats cats cats dogs dogs birds''
   \<and> length (filter (\<lambda>(word, count). count \<ge> 2)
        (wordCounts (ascii_runtime id) ''aaa aaa bbb bbb'')) \<le> 15
   \<and> mset (extractKeywords (ascii_runtime id) ''aaa aaa bbb bbb'')
      = mset (extractKeywords (ascii_runtime rev) ''aaa aaa bbb bbb'')
   \<and> ''kaa'' \<in> set (extractKeywords (ascii_runtime id) sixteen_words)
   \<and> ''kaa'' \<notin> set (extractKeywords (ascii_runtime rev) sixteen_words)
   \<and> length (extractKeywords (ascii_runtime rev) sixteen_words) = 15
   \<and> count_of (wordCounts (ascii_runtime id) sixteen_words) ''kaa''
      = count_of (wordCounts (ascii_runtime id) sixteen_words)
          (last (extractKeywords (ascii_runtime rev) sixteen_words))
   \<and> map (count_of (wordCounts (ascii_runtime id) sixteen_words))
        (extractKeywords (ascii_runtime id) sixteen_words)
      = map (count_of (wordCounts (ascii_runtime rev) sixteen_words))
        (extractKeywords (ascii_runtime rev) sixteen_words)"
proof -
  have d: "distinct (map snd (filter (\<lambda>(word, count). count \<ge> 2)
        (wordCounts (ascii_runtime id) ''cats cats cats dogs dogs birds'')))"
    by code_simp
  have l: "length (filter (\<lambda>(word, count). count \<ge> 2)
        (wordCounts (ascii_runtime id) ''aaa aaa bbb bbb'')) \<le> 15"
    by code_simp
  have k1: "extractKeywords (ascii_runtime id) sixteen_words =
      [''kaa'', ''kab'', ''kac'', ''kad'', ''kae'', ''kaf'', ''kag'', ''kah'', ''kai'', ''kaj'',
       ''kak'', ''kal'', ''kam'', ''kan'', ''kao'']"
    by code_simp
  have k2: "extractKeywords (ascii_runtime rev) sixteen_words =
      [''kap'', ''kao'', ''kan'', ''kam'', ''kal'', ''kak'', ''kaj'', ''kai'', ''kah'', ''kag'',
       ''kaf'', ''kae'', ''kad'', ''kac'', ''kab'']"
    by code_simp
  have m1: "''kaa'' \<in> set (extractKeywords (ascii_runtime id) sixteen_words)"
    unfolding k1 by simp
  have m2: "''kaa'' \<notin> set (extractKeywords (ascii_runtime rev) sixteen_words)"
    unfolding k2 by simp
  have t: "ToLower (ascii_runtime id) = ToLower (ascii_runtime rev)"
    "IsLetter (ascii_runtime id) = IsLetter (ascii_runtime rev)"
    "IsNumber (ascii_runtime id) = IsNumber (ascii_runtime rev)"
    by (simp_all add: ascii_runtime_def)
  note agree = extractKeywords_deterministic_up_to_ties
      [OF runtime_ok_ascii_id runtime_ok_ascii_rev t]
  from agree [of "''cats cats cats dogs dogs birds''"] d
  have A: "extractKeywords (ascii_runtime id) ''cats cats cats dogs dogs birds''
      = extractKeywords (ascii_runtime rev) ''cats cats cats dogs dogs birds''"
    by blast
  from agree [of "''aaa aaa bbb bbb''"] l
  have B: "mset (extractKeywords (ascii_runtime id) ''aaa aaa bbb bbb'')
      = mset (extractKeywords (ascii_runtime rev) ''aaa aaa bbb bbb'')"
    by blast
  from agree [of sixteen_words] m1 m2
  have C: "length (extractKeywords (ascii_runtime rev) sixteen_words) = 15
      \<and> count_of (wordCounts (ascii_runtime id) sixteen_words) ''kaa''
        = count_of (wordCounts (ascii_runtime id) sixteen_words)
            (last (extractKeywords (ascii_runtime rev) sixteen_words))"
    by blast
  from agree [of sixteen_words]
  have D: "map (count_of (wordCounts (ascii_runtime id) sixteen_words))
        (extractKeywords (ascii_runtime id) sixteen_words)
      = map (count_of (wordCounts (ascii_runtime rev) sixteen_words))
        (extractKeywords (ascii_runtime rev) sixteen_words)"
    by blast
  from runtime_ok_ascii_id runtime_ok_ascii_rev d A l B m1 m2 C D show ?thesis
    by blast
qed

text \<open>
  C4 (as stated, refuted): two words with the same count come out in the order in which
  the map iteration visits them, so two runs on the same text differ.
\<close>

theorem extractKeywords_order_depends_on_map_range:
  "extractKeywords (ascii_runtime id) ''aaa aaa bbb bbb''
     \<noteq> extractKeywords (ascii_runtime rev) ''aaa aaa bbb bbb''"
  by code_simp

subsection \<open>analyzeURL\<close>

lemma analyzeURL_response:
  assumes "NewRequest net ''GET'' url = Inr req" and "Do net (set_user_agent req) = Inr resp"
  shows "analyzeURL net rt url = Result (analysis_of rt (take 500000 (Body resp)))"
  using assms by (simp add: analyzeURL_def ReadAll_LimitReader_def analysis_of_def Let_def)

text \<open>
  C8: when the body has more than 500,000 bytes, analyzeURL returns a result (not an
  error), and the result is what the pipeline makes of the first 500,000 bytes.
\<close>

theorem analyzeURL_truncates:
  assumes "NewRequest net ''GET'' url = Inr req" and "Do net (set_user_agent req) = Inr resp"
    and "length (Body resp) > 500000"
  shows "analyzeURL net rt url = Result (analysis_of rt (take 500000 (Body resp)))
    \<and> length (take 500000 (Body resp)) = 500000"
  using assms by (simp add: analyzeURL_response)

text \<open>C8: witness, a body of 500,001 bytes.\<close>

theorem analyzeURL_truncates_witness:
  "length (Body \<lparr>Body = replicate 500001 CHR ''a'', BodyErr = (None :: unit option)\<rparr>) > 500000
   \<and> analyzeURL (serving \<lparr>Body = replicate 500001 CHR ''a'', BodyErr = (None :: unit option)\<rparr>)
        (ascii_runtime id) ''http://example.com/''
      = Result (analysis_of (ascii_runtime id) (replicate 500000 CHR ''a''))"
  using analyzeURL_truncates [of "serving \<lparr>Body = replicate 500001 CHR ''a'', BodyErr = (None :: unit option)\<rparr>"
      "''http://example.com/''" "\<lparr>Method = ''GET'', URL = ''http://example.com/'', Header = Map.empty\<rparr>"
      "\<lparr>Body = replicate 500001 CHR ''a'', BodyErr = (None :: unit option)\<rparr>" "ascii_runtime id"]
  by (simp add: serving_def)

text \<open>
  C10: analyzeURL returns an error exactly when \<open>client.Do\<close> returns one, and it is that
  error; once there is a response it returns a result built from the bytes read (at most
  500,000), whether or not the body ended in an error.
\<close>

theorem analyzeURL_error_iff:
  "(analyzeURL net rt url = Error e
      \<longleftrightarrow> (\<exists>req. NewRequest net ''GET'' url = Inr req \<and> Do net (set_user_agent req) = Inl e))
   \<and> (\<forall>req resp. NewRequest net ''GET'' url = Inr req \<and> Do net (set_user_agent req) = Inr resp
        \<longrightarrow> analyzeURL net rt url = Result (analysis_of rt (take 500000 (Body resp))))"
  by (auto simp: analyzeURL_response)
     (auto simp: analyzeURL_def Let_def split: sum.splits prod.splits)






text \<open>
  C10: witness. A response whose body ends in a read error gives a result built from the
  bytes read, and a failing \<open>client.Do\<close> gives its error.
\<close>

theorem analyzeURL_error_iff_witness:
  "analyzeURL (failing ''timeout'') (ascii_runtime id) ''http://example.com/'' = Error ''timeout''
   \<and> analyzeURL (serving \<lparr>Body = ''<p>cut'', BodyErr = Some ''unexpected EOF''\<rparr>)
        (ascii_runtime id) ''http://example.com/''
      = Result (analysis_of (ascii_runtime id) ''<p>cut'')"
proof -
  let ?req = "\<lparr>Method = ''GET'', URL = ''http://example.com/'', Header = Map.empty\<rparr>"
  have "analyzeURL (failing ''timeout'') (ascii_runtime id) ''http://example.com/'' = Error ''timeout''"
    using analyzeURL_error_iff [of "failing ''timeout''" "ascii_runtime id" "''http://example.com/''" "''timeout''"]
    by (simp add: failing_def)
  moreover have "analyzeURL (serving \<lparr>Body = ''<p>cut'', BodyErr = Some ''unexpected EOF''\<rparr>)
        (ascii_runtime id) ''http://example.com/''
      = Result (analysis_of (ascii_runtime id) ''<p>cut'')"
    using analyzeURL_error_iff [of "serving \<lparr>Body = ''<p>cut'', BodyErr = Some ''unexpected EOF''\<rparr>"
        "ascii_runtime id" "''http://example.com/''" "''x''"]
    by (simp add: serving_def)
  ultimately show ?thesis by simp
qed

end
